theory Spec2Isabelle
  imports Main "HOL-Library.Word" "HOL-Library.Multiset"
begin

section \<open>Project Euler 92 (p92.cpp): square-digit chains below ten million\<close>

text \<open>
  The program counts the starting numbers below ten million whose chain of repeated
  "squigits" (the sum of the squares of the decimal digits) arrives at 89. It does so four
  times, with four classes that each implement \<open>solve\<close>. The model follows the C++ text:
  \<open>u32\<close> is a 32-bit word whose arithmetic wraps, every loop is a recursive function, and
  what C++ leaves undefined (a division by zero, an index outside a container's size, a
  read of an array slot that was never written) is a value of the type \<open>error\<close>.
  A \<open>while(true)\<close> loop whose exit depends on the data is a partial function into
  \<open>option\<close>: \<open>None\<close> means the loop never leaves.
\<close>

subsection \<open>Data\<close>

type_synonym u32 = "32 word"

datatype error = DivisionByZero | OutOfBounds | UninitializedRead

definition TEN_MILLION :: u32 where
  "TEN_MILLION = 10000000"

subsection \<open>power and squigit\<close>

text \<open>
  \<open>power\<close> (here \<open>power_u32\<close>, since HOL has a constant of that name):
  \<open>u32 ans{1}; while(exp != 0) { ans *= base; --exp; } return ans;\<close>
\<close>

function power_loop :: "u32 \<Rightarrow> u32 \<Rightarrow> u32 \<Rightarrow> u32" where
  "power_loop ans base exp =
     (if exp \<noteq> 0 then power_loop (ans * base) base (exp - 1) else ans)"
  by pat_completeness auto
termination
  by (relation "measure (\<lambda>(ans, base, exp). unat exp)") (auto simp: unat_minus_one unat_gt_0)

declare power_loop.simps [simp del]

definition power_u32 :: "u32 \<Rightarrow> u32 \<Rightarrow> u32" where
  "power_u32 base exp = power_loop 1 base exp"

lemma power_loop_eq: "power_loop ans base exp = ans * base ^ unat exp"
proof (induction ans base exp rule: power_loop.induct)
  case (1 ans base exp)
  show ?case
  proof (cases "exp = 0")
    case True
    then show ?thesis by (subst power_loop.simps) simp
  next
    case False
    then have "unat exp = Suc (unat (exp - 1))"
      by (simp add: unat_minus_one unat_gt_0)
    with False 1 show ?thesis
      by (subst power_loop.simps) (simp add: mult.assoc)
  qed
qed

lemma power_u32_eq: "power_u32 base exp = base ^ unat exp"
  by (simp add: power_u32_def power_loop_eq)

lemma ten_pow_32_word: "(10 :: u32) ^ 32 = 0"
proof -
  have "(10 :: u32) ^ 32 = (2 * 5) ^ 32" by simp
  also have "\<dots> = 2 ^ 32 * 5 ^ 32" by (simp only: power_mult_distrib)
  also have "\<dots> = 0" by simp
  finally show ?thesis .
qed

lemma power_10_nonzero: "power_u32 10 i \<noteq> 0 \<Longrightarrow> unat i < 32"
proof (rule ccontr)
  assume nz: "power_u32 10 i \<noteq> 0" and "\<not> unat i < 32"
  then have "unat i = 32 + (unat i - 32)" by simp
  then have "(10 :: u32) ^ unat i = 10 ^ 32 * 10 ^ (unat i - 32)"
    by (metis power_add)
  then have "(10 :: u32) ^ unat i = 0"
    by (simp only: ten_pow_32_word mult_zero_left)
  with nz show False
    by (simp only: power_u32_eq)
qed

text \<open>
  \<open>squigit\<close>: the loop peels the decimal digits off \<open>val\<close> from the right. In round
  \<open>i\<close> it takes \<open>mod_val = val % power(10, i)\<close>, subtracts it from \<open>val\<close> and adds the
  square of \<open>mod_val / power(10, i - 1)\<close>. Both \<open>%\<close> and \<open>/\<close> are undefined for a zero
  divisor, and \<open>power(10, i)\<close> is computed in 32 bits, so both checks are branches here.
\<close>

function squigit_loop :: "u32 \<Rightarrow> u32 \<Rightarrow> u32 \<Rightarrow> error + u32" where
  "squigit_loop val ans i =
     (if val \<noteq> 0 then
        (if power_u32 10 i = 0 then Inl DivisionByZero
         else if power_u32 10 (i - 1) = 0 then Inl DivisionByZero
         else squigit_loop (val - val mod power_u32 10 i)
                (ans + (val mod power_u32 10 i div power_u32 10 (i - 1))
                     * (val mod power_u32 10 i div power_u32 10 (i - 1)))
                (i + 1))
      else Inr ans)"
  by pat_completeness auto
termination
proof (relation "measure (\<lambda>(val, ans, i). 32 - unat i)", goal_cases)
  case 1
  show ?case by simp
next
  case (2 val ans i)
  then have lt: "unat i < 32"
    using power_10_nonzero by blast
  then have "unat (i + 1) = unat i + 1"
    by (simp add: unat_word_ariths)
  with lt have "32 - unat (i + 1) < 32 - unat i"
    by linarith
  then show ?case
    by (simp only: in_measure prod.case)
qed

declare squigit_loop.simps [simp del]

definition squigit :: "u32 \<Rightarrow> error + u32" where
  "squigit val = squigit_loop val 0 1"

lemma unat_dec_less: "(w :: u32) \<noteq> 0 \<Longrightarrow> unat (w - 1) < unat w"
  by (simp add: unat_minus_one unat_gt_0)

lemma unat_inc_below:
  fixes i bound :: u32
  assumes "i < bound"
  shows "unat (i + 1) = unat i + 1" and "unat i < unat bound"
proof -
  from assms show lt: "unat i < unat bound"
    by (simp add: word_less_nat_alt)
  have "unat bound < 2 ^ 32"
    using unsigned_less [of bound, where ?'a = nat] by simp
  with lt have "unat i + 1 < 2 ^ 32"
    by linarith
  then show "unat (i + 1) = unat i + 1"
    by (simp add: unat_word_ariths)
qed

subsection \<open>BruteForceMethod\<close>

text \<open>
  The inner \<open>while(true)\<close> of \<open>BruteForceMethod::solve\<close>: take the squigit of the current
  chain number, leave with "counted" at 89, leave with "not counted" at 1, go on with the
  squigit otherwise. (\<open>chain_length\<close> is only read under \<open>#ifdef TEST_CHAIN\<close>, which is
  not defined, so it is left out.)
\<close>

partial_function (option) BruteForce_chain :: "u32 \<Rightarrow> (error + bool) option" where
  "BruteForce_chain current_chain_number =
     (case squigit current_chain_number of
        Inl e \<Rightarrow> Some (Inl e)
      | Inr val \<Rightarrow>
          if val = 89 then Some (Inr True)
          else if val = 1 then Some (Inr False)
          else BruteForce_chain val)"

declare BruteForce_chain.simps [code]

text \<open>
  The outer \<open>for(u32 i = 1; i < TEN_MILLION; ++i)\<close>, with the bound as a parameter.
\<close>

function BruteForce_loop :: "u32 \<Rightarrow> u32 \<Rightarrow> u32 \<Rightarrow> (error + u32) option" where
  "BruteForce_loop bound i numbers_ending_with_89 =
     (if i < bound then
        (case BruteForce_chain i of
           None \<Rightarrow> None
         | Some (Inl e) \<Rightarrow> Some (Inl e)
         | Some (Inr b) \<Rightarrow>
             BruteForce_loop bound (i + 1)
               (if b then numbers_ending_with_89 + 1 else numbers_ending_with_89))
      else Some (Inr numbers_ending_with_89))"
  by pat_completeness auto
termination
proof (relation "measure (\<lambda>(bound, i, n). unat bound - unat i)", goal_cases)
  case 1
  show ?case by simp
next
  case (2 bound i n x2 b)
  then have "unat bound - unat (i + 1) < unat bound - unat i"
    using unat_inc_below [of i bound] by linarith
  then show ?case
    by (simp only: in_measure prod.case)
qed

declare BruteForce_loop.simps [simp del]

definition BruteForce_solve :: "(error + u32) option" where
  "BruteForce_solve = BruteForce_loop TEN_MILLION 1 0"

subsection \<open>BruteForceMethodCached\<close>

text \<open>
  \<open>std::vector<bool> numbers_that_goto_89{false}\<close> is a vector holding the one element
  \<open>false\<close> (\<open>initial_cache\<close>); \<open>reserve(567)\<close> changes its capacity, not its size. \<open>operator[]\<close> is
  defined for an index below the size only, so a read or write at any other index is the
  error \<open>OutOfBounds\<close>.
\<close>

definition vector_read :: "bool list \<Rightarrow> u32 \<Rightarrow> error + bool" where
  "vector_read v idx = (if unat idx < length v then Inr (v ! unat idx) else Inl OutOfBounds)"

definition vector_write :: "bool list \<Rightarrow> u32 \<Rightarrow> bool \<Rightarrow> error + bool list" where
  "vector_write v idx b = (if unat idx < length v then Inr (v[unat idx := b]) else Inl OutOfBounds)"

text \<open>
  The inner \<open>while(true)\<close>. \<open>val == 89 || numbers_that_goto_89[val]\<close> reads the vector only
  when \<open>val\<close> is not 89, and likewise for 1. The result is \<open>goes_to_1\<close> with the
  \<open>chain_numbers\<close> pushed so far.
\<close>

partial_function (option) Cached_chain ::
    "bool list \<Rightarrow> bool list \<Rightarrow> u32 \<Rightarrow> u32 list \<Rightarrow> (error + bool \<times> u32 list) option" where
  "Cached_chain numbers_that_goto_89 numbers_that_goto_1 current_chain_number chain_numbers =
     (case squigit current_chain_number of
        Inl e \<Rightarrow> Some (Inl e)
      | Inr val \<Rightarrow>
          (case (if val = 89 then Inr True else vector_read numbers_that_goto_89 val) of
             Inl e \<Rightarrow> Some (Inl e)
           | Inr in_89 \<Rightarrow>
               if in_89 then Some (Inr (False, chain_numbers))
               else
                 (case (if val = 1 then Inr True else vector_read numbers_that_goto_1 val) of
                    Inl e \<Rightarrow> Some (Inl e)
                  | Inr in_1 \<Rightarrow>
                      if in_1 then Some (Inr (True, chain_numbers))
                      else Cached_chain numbers_that_goto_89 numbers_that_goto_1 val
                             (chain_numbers @ [val]))))"

declare Cached_chain.simps [code]

text \<open>
  \<open>for(u32 i = 0; i < chain_numbers.size(); ++i) cache[chain_numbers[i]] = true;\<close>
\<close>

fun mark_chain :: "bool list \<Rightarrow> u32 list \<Rightarrow> error + bool list" where
  "mark_chain cache [] = Inr cache"
| "mark_chain cache (n # chain_numbers) =
     (case vector_write cache n True of
        Inl e \<Rightarrow> Inl e
      | Inr cache' \<Rightarrow> mark_chain cache' chain_numbers)"

function Cached_loop ::
    "u32 \<Rightarrow> u32 \<Rightarrow> bool list \<Rightarrow> bool list \<Rightarrow> u32 \<Rightarrow> (error + u32) option" where
  "Cached_loop bound i numbers_that_goto_89 numbers_that_goto_1 numbers_ending_with_89 =
     (if i < bound then
        (case Cached_chain numbers_that_goto_89 numbers_that_goto_1 i [] of
           None \<Rightarrow> None
         | Some (Inl e) \<Rightarrow> Some (Inl e)
         | Some (Inr (goes_to_1, chain_numbers)) \<Rightarrow>
             if goes_to_1 then
               (case mark_chain numbers_that_goto_1 chain_numbers of
                  Inl e \<Rightarrow> Some (Inl e)
                | Inr to_1 \<Rightarrow>
                    Cached_loop bound (i + 1) numbers_that_goto_89 to_1 numbers_ending_with_89)
             else
               (case mark_chain numbers_that_goto_89 chain_numbers of
                  Inl e \<Rightarrow> Some (Inl e)
                | Inr to_89 \<Rightarrow>
                    Cached_loop bound (i + 1) to_89 numbers_that_goto_1
                      (numbers_ending_with_89 + 1)))
      else Some (Inr numbers_ending_with_89))"
  by pat_completeness auto
termination
proof (relation "measure (\<lambda>(bound, i, c89, c1, n). unat bound - unat i)", goal_cases)
  case 1
  show ?case by simp
next
  case (2 bound i c89 c1 n)
  then have "unat bound - unat (i + 1) < unat bound - unat i"
    using unat_inc_below [of i bound] by linarith
  then show ?case
    by (simp only: in_measure prod.case)
next
  case (3 bound i c89 c1 n)
  then have "unat bound - unat (i + 1) < unat bound - unat i"
    using unat_inc_below [of i bound] by linarith
  then show ?case
    by (simp only: in_measure prod.case)
qed

declare Cached_loop.simps [simp del]

definition initial_cache :: "bool list" where
  "initial_cache = [False]"

definition Cached_solve :: "(error + u32) option" where
  "Cached_solve = Cached_loop TEN_MILLION 1 initial_cache initial_cache 0"

subsection \<open>The reaches-1 table of SquigitsMethod and DigitsMethod\<close>

text \<open>
  \<open>bool squigits_to_1[1024]\<close> is a local array without an initialiser: a slot holds no
  value (\<open>None\<close>) until the program writes it, and reading such a slot is the error
  \<open>UninitializedRead\<close>. Both classes fill it with the same loop over \<open>i = 1 .. 567\<close>.
\<close>

definition array_read :: "bool option list \<Rightarrow> u32 \<Rightarrow> error + bool" where
  "array_read a idx =
     (if unat idx < length a
      then (case a ! unat idx of None \<Rightarrow> Inl UninitializedRead | Some b \<Rightarrow> Inr b)
      else Inl OutOfBounds)"

partial_function (option) to_1_chain :: "u32 \<Rightarrow> (error + bool) option" where
  "to_1_chain val =
     (if val = 1 then Some (Inr True)
      else if val = 89 then Some (Inr False)
      else (case squigit val of Inl e \<Rightarrow> Some (Inl e) | Inr v \<Rightarrow> to_1_chain v))"

declare to_1_chain.simps [code]

function table_loop :: "u32 \<Rightarrow> bool option list \<Rightarrow> (error + bool option list) option" where
  "table_loop i squigits_to_1 =
     (if i \<le> 567 then
        (case to_1_chain i of
           None \<Rightarrow> None
         | Some (Inl e) \<Rightarrow> Some (Inl e)
         | Some (Inr b) \<Rightarrow>
             if unat i < length squigits_to_1
             then table_loop (i + 1) (squigits_to_1[unat i := Some b])
             else Some (Inl OutOfBounds))
      else Some (Inr squigits_to_1))"
  by pat_completeness auto
termination
proof (relation "measure (\<lambda>(i, t). 568 - unat i)", goal_cases)
  case 1
  show ?case by simp
next
  case (2 i t x2 b)
  then have "i < 568"
    by (simp add: word_le_nat_alt word_less_nat_alt)
  then have "568 - unat (i + 1) < 568 - unat i"
    using unat_inc_below [of i 568] by simp
  then show ?case
    by (simp only: in_measure prod.case)
qed

declare table_loop.simps [simp del]

definition squigits_table :: "(error + bool option list) option" where
  "squigits_table = table_loop 1 (replicate 1024 None)"

subsection \<open>SquigitsMethod\<close>

function Squigits_loop :: "bool option list \<Rightarrow> u32 \<Rightarrow> u32 \<Rightarrow> u32 \<Rightarrow> error + u32" where
  "Squigits_loop squigits_to_1 bound i ans =
     (if i < bound then
        (case squigit i of
           Inl e \<Rightarrow> Inl e
         | Inr s \<Rightarrow>
             (case array_read squigits_to_1 s of
                Inl e \<Rightarrow> Inl e
              | Inr to_1 \<Rightarrow>
                  Squigits_loop squigits_to_1 bound (i + 1) (if \<not> to_1 then ans + 1 else ans)))
      else Inr ans)"
  by pat_completeness auto
termination
proof (relation "measure (\<lambda>(t, bound, i, n). unat bound - unat i)", goal_cases)
  case 1
  show ?case by simp
next
  case (2 t bound i n s b)
  then have "unat bound - unat (i + 1) < unat bound - unat i"
    using unat_inc_below [of i bound] by linarith
  then show ?case
    by (simp only: in_measure prod.case)
qed

declare Squigits_loop.simps [simp del]

definition Squigits_solve :: "(error + u32) option" where
  "Squigits_solve =
     (case squigits_table of
        None \<Rightarrow> None
      | Some (Inl e) \<Rightarrow> Some (Inl e)
      | Some (Inr squigits_to_1) \<Rightarrow> Some (Squigits_loop squigits_to_1 TEN_MILLION 1 0))"

subsection \<open>DigitsMethod\<close>

text \<open>
  \<open>fact\<close>: \<open>u32 ans{1}; while(num != 1) { ans *= num; --num; } return ans;\<close>
  The loop leaves at 1 only, so from 0 it wraps around to \<open>0xFFFFFFFF\<close> and walks down.
\<close>

function fact_loop :: "u32 \<Rightarrow> u32 \<Rightarrow> u32" where
  "fact_loop ans num = (if num \<noteq> 1 then fact_loop (ans * num) (num - 1) else ans)"
  by pat_completeness auto
termination
proof (relation "measure (\<lambda>(ans, num). unat (num - 1))", goal_cases)
  case 1
  show ?case by simp
next
  case (2 ans num)
  then have "num - 1 \<noteq> 0" by simp
  then have "unat (num - 1 - 1) < unat (num - 1)"
    by (rule unat_dec_less)
  then show ?case
    by (simp only: in_measure prod.case)
qed

declare fact_loop.simps [simp del]

definition fact_u32 :: "u32 \<Rightarrow> u32" where
  "fact_u32 num = fact_loop 1 num"

text \<open>
  \<open>remove_element\<close> erases the first occurrence of \<open>val\<close> and returns the copy.
\<close>

fun remove_element :: "u32 list \<Rightarrow> u32 \<Rightarrow> u32 list" where
  "remove_element [] val = []"
| "remove_element (n # nums) val = (if n = val then nums else n # remove_element nums val)"

text \<open>
  \<open>combination\<close>: for \<open>r == 1\<close> one singleton per element; otherwise the loop
  \<open>for(auto element : elements)\<close> (here \<open>combination_loop\<close>, over the elements still to
  visit) appends \<open>element\<close> to every combination of \<open>r - 1\<close> elements of
  \<open>elements_to_use\<close> and then removes \<open>element\<close> from \<open>elements_to_use\<close>.
  \<open>r - 1\<close> is 32-bit: a call with \<open>r = 0\<close> recurses with \<open>0xFFFFFFFF\<close>.
\<close>

function combination :: "u32 list \<Rightarrow> u32 \<Rightarrow> u32 list list"
  and combination_loop :: "u32 list \<Rightarrow> u32 list \<Rightarrow> u32 \<Rightarrow> u32 list list \<Rightarrow> u32 list list" where
  "combination elements r =
     (if r = 1 then map (\<lambda>element. [element]) elements
      else combination_loop elements elements r [])"
| "combination_loop [] elements_to_use r return_val = return_val"
| "combination_loop (element # rest) elements_to_use r return_val =
     combination_loop rest (remove_element elements_to_use element) r
       (return_val @ map (\<lambda>combo. combo @ [element]) (combination elements_to_use (r - 1)))"
  by pat_completeness auto
termination
proof (relation "measures
    [\<lambda>x. case x of
        Inl (elements, r) \<Rightarrow> 2 * unat (r - 1) + 1
      | Inr (todo, elements_to_use, r, return_val) \<Rightarrow>
          if r = 1 then 2 ^ 33 else 2 * unat (r - 1),
     \<lambda>x. case x of
        Inl (elements, r) \<Rightarrow> 0
      | Inr (todo, elements_to_use, r, return_val) \<Rightarrow> length todo]", goal_cases)
  case 1
  show ?case by simp
next
  case (2 elements r)
  then show ?case by simp
next
  case (3 element rest elements_to_use r return_val)
  show ?case
  proof (cases "r = 1")
    case True
    have "unat (- 1 :: u32) < 2 ^ 32"
      using unsigned_less [of "- 1 :: u32", where ?'a = nat] by simp
    with True show ?thesis by simp
  next
    case False
    then have "r - 1 \<noteq> 0" by simp
    then have "unat (r - 1 - 1) < unat (r - 1)"
      by (rule unat_dec_less)
    with False show ?thesis by simp
  qed
next
  case (4 element rest elements_to_use r return_val)
  show ?case by simp
qed

declare combination.simps [simp del]

text \<open>
  The body of \<open>for(auto combo : combinations)\<close> in \<open>DigitsMethod::solve\<close>, in the order
  of the source: the squigit of the combination, then (under the test) the number of
  starting numbers: \<open>fact(combo.size())\<close> divided, for each digit \<open>i\<close> with
  \<open>duplicates[i] > 0\<close>, by \<open>fact(duplicates[i])\<close>. \<open>duplicates\<close> is \<open>int[10]\<close>; its
  entries count occurrences and are modelled as unbounded integers.
\<close>

fun combo_squigit :: "u32 list \<Rightarrow> u32 \<Rightarrow> error + u32" where
  "combo_squigit [] squigit_val = Inr squigit_val"
| "combo_squigit (num # combo) squigit_val =
     (case squigit num of
        Inl e \<Rightarrow> Inl e
      | Inr s \<Rightarrow> combo_squigit combo (squigit_val + s))"

fun count_duplicates :: "u32 list \<Rightarrow> int list \<Rightarrow> error + int list" where
  "count_duplicates [] duplicates = Inr duplicates"
| "count_duplicates (val # combo) duplicates =
     (if unat val < length duplicates
      then count_duplicates combo (duplicates[unat val := duplicates ! unat val + 1])
      else Inl OutOfBounds)"

fun divide_by_duplicates :: "int list \<Rightarrow> u32 \<Rightarrow> error + u32" where
  "divide_by_duplicates [] starting_numbers = Inr starting_numbers"
| "divide_by_duplicates (d # duplicates) starting_numbers =
     (if d > 0 then
        (if fact_u32 (word_of_int d) = 0 then Inl DivisionByZero
         else divide_by_duplicates duplicates (starting_numbers div fact_u32 (word_of_int d)))
      else divide_by_duplicates duplicates starting_numbers)"

definition starting_numbers_of :: "u32 list \<Rightarrow> error + u32" where
  "starting_numbers_of combo =
     (case count_duplicates combo (replicate 10 0) of
        Inl e \<Rightarrow> Inl e
      | Inr duplicates \<Rightarrow> divide_by_duplicates duplicates (fact_u32 (of_nat (length combo))))"

fun Digits_loop :: "bool option list \<Rightarrow> u32 list list \<Rightarrow> u32 \<Rightarrow> error + u32" where
  "Digits_loop squigits_to_1 [] ans = Inr ans"
| "Digits_loop squigits_to_1 (combo # combinations) ans =
     (case combo_squigit combo 0 of
        Inl e \<Rightarrow> Inl e
      | Inr squigit_val \<Rightarrow>
          if squigit_val \<noteq> 0 then
            (case array_read squigits_to_1 squigit_val of
               Inl e \<Rightarrow> Inl e
             | Inr to_1 \<Rightarrow>
                 if \<not> to_1 then
                   (case starting_numbers_of combo of
                      Inl e \<Rightarrow> Inl e
                    | Inr starting_numbers \<Rightarrow>
                        Digits_loop squigits_to_1 combinations (ans + starting_numbers))
                 else Digits_loop squigits_to_1 combinations ans)
          else Digits_loop squigits_to_1 combinations ans)"

definition nums :: "u32 list" where
  "nums = [0, 1, 2, 3, 4, 5, 6, 7, 8, 9]"

definition Digits_solve :: "(error + u32) option" where
  "Digits_solve =
     (case squigits_table of
        None \<Rightarrow> None
      | Some (Inl e) \<Rightarrow> Some (Inl e)
      | Some (Inr squigits_to_1) \<Rightarrow> Some (Digits_loop squigits_to_1 (combination nums 7) 0))"

section \<open>The specification's digit sum\<close>

text \<open>
  The specification describes \<open>squigit\<close> as "the sum over its decimal digits of each digit
  squared". \<open>digit_square_sum\<close> is that sum, on the natural numbers, written from these
  words and not from the code; the theorems below compare \<open>squigit\<close> with it.
\<close>

function digit_square_sum :: "nat \<Rightarrow> nat" where
  "digit_square_sum n = (if n = 0 then 0 else (n mod 10) * (n mod 10) + digit_square_sum (n div 10))"
  by pat_completeness auto
termination
  by (relation "measure id") auto

declare digit_square_sum.simps [simp del]

section \<open>Definitions for the theorems\<close>

text \<open>
  The definitions of this section are not part of the program: they state the theorems
  about it and carry their proofs.
\<close>

text \<open>
  \<open>squigit_iter k v\<close> applies \<open>squigit\<close> \<open>k\<close> times to \<open>v\<close>.
\<close>

fun squigit_iter :: "nat \<Rightarrow> u32 \<Rightarrow> error + u32" where
  "squigit_iter 0 v = Inr v"
| "squigit_iter (Suc k) v = (case squigit v of Inl e \<Rightarrow> Inl e | Inr w \<Rightarrow> squigit_iter k w)"

text \<open>
  The same chain on the natural numbers, with the digit sum of the specification and a
  bound on the number of steps: \<open>reaches_1 fuel n\<close> is \<open>Some True\<close> when the chain from
  \<open>n\<close> arrives at 1, \<open>Some False\<close> when it arrives at 89, and \<open>None\<close> when \<open>fuel\<close> steps
  do not suffice. \<open>descends fuel v n\<close> holds when the chain from \<open>n\<close> arrives within
  \<open>fuel\<close> steps at 1, at 89 or at a positive number below \<open>v\<close>; \<open>all_from_to P i j\<close>
  checks \<open>P\<close> on every number from \<open>i\<close> to \<open>j\<close>, halving the interval.
\<close>

fun reaches_1 :: "nat \<Rightarrow> nat \<Rightarrow> bool option" where
  "reaches_1 0 n = None"
| "reaches_1 (Suc fuel) n =
     (if n = 1 then Some True else if n = 89 then Some False
      else reaches_1 fuel (digit_square_sum n))"

fun descends :: "nat \<Rightarrow> nat \<Rightarrow> nat \<Rightarrow> bool" where
  "descends 0 v n = False"
| "descends (Suc fuel) v n =
     (if n = 1 \<or> n = 89 \<or> (0 < n \<and> n < v) then True
      else descends fuel v (digit_square_sum n))"

definition chain_descends :: "nat \<Rightarrow> bool" where
  "chain_descends v = descends 12 v v"

function all_from_to :: "(nat \<Rightarrow> bool) \<Rightarrow> nat \<Rightarrow> nat \<Rightarrow> bool" where
  "all_from_to P i j =
     (if j < i then True
      else if i = j then P i
      else all_from_to P i ((i + j) div 2) \<and> all_from_to P ((i + j) div 2 + 1) j)"
  by pat_completeness auto
termination
  by (relation "measure (\<lambda>(P, i, j). j + 1 - i)") auto

declare all_from_to.simps [simp del]

text \<open>
  The specification's count for a combination: "factorial-of-length divided by the
  product of factorials of each digit's repeat count".
\<close>

definition permutation_count :: "u32 list \<Rightarrow> nat" where
  "permutation_count combo =
     fact (length combo) div (\<Prod>d\<in>set combo. fact (count_list combo d))"

text \<open>
  \<open>combos\<close> is the enumeration that \<open>combination\<close> turns out to compute, with the size as
  a natural number: the combinations of \<open>k + 1\<close> elements of \<open>element # rest\<close> are those of
  \<open>k\<close> elements with \<open>element\<close> appended, followed by those of \<open>k + 1\<close> elements of
  \<open>rest\<close>.
\<close>

fun combos :: "'a list \<Rightarrow> nat \<Rightarrow> 'a list list" where
  "combos elements 0 = [[]]"
| "combos [] (Suc k) = []"
| "combos (element # rest) (Suc k) =
     map (\<lambda>combo. combo @ [element]) (combos (element # rest) k) @ combos rest (Suc k)"

text \<open>
  \<open>arrangements M\<close> is the set of the lists whose elements, with their repeat counts, are
  the multiset \<open>M\<close>: the distinct digit strings that are permutations of a combination.
  \<open>repeat_factorials M\<close> is the product of the factorials of the repeat counts.
\<close>

definition arrangements :: "'a multiset \<Rightarrow> 'a list set" where
  "arrangements M = {xs. mset xs = M}"

definition repeat_factorials :: "'a multiset \<Rightarrow> nat" where
  "repeat_factorials M = (\<Prod>x\<in>set_mset M. fact (count M x))"

text \<open>
  \<open>to_1 n\<close>: the chain from \<open>n\<close> arrives at 1. \<open>the_table\<close> is the array that the loop
  over \<open>i = 1 .. 567\<close> leaves behind: slot \<open>v\<close> holds \<open>to_1 v\<close> for \<open>v\<close> from 1 to 567, and
  no value anywhere else. \<open>digit_squares combo\<close> is the sum of the squares of the digits
  of a combination.
\<close>

definition to_1 :: "nat \<Rightarrow> bool" where
  "to_1 n = (\<exists>fuel. reaches_1 fuel n = Some True)"

definition the_table :: "bool option list" where
  "the_table = map (\<lambda>v. if 1 \<le> v \<and> v \<le> 567 then Some (to_1 v) else None) [0..<1024]"

definition digit_squares :: "u32 list \<Rightarrow> nat" where
  "digit_squares combo = (\<Sum>d\<leftarrow>combo. unat d * unat d)"

text \<open>
  \<open>count_89 i j\<close> is the number of starting numbers from \<open>i\<close> up to, not including,
  \<open>j\<close> whose digit sum does not lead to 1.
\<close>

definition count_89 :: "nat \<Rightarrow> nat \<Rightarrow> nat" where
  "count_89 i j = card {n. i \<le> n \<and> n < j \<and> \<not> to_1 (digit_square_sum n)}"

text \<open>
  \<open>counted combo\<close> is what a combination adds to the answer of \<open>DigitsMethod::solve\<close>.
\<close>

definition counted :: "u32 list \<Rightarrow> nat" where
  "counted combo =
     (if digit_squares combo \<noteq> 0 \<and> \<not> to_1 (digit_squares combo)
      then permutation_count combo else 0)"

text \<open>
  A number below \<open>10^k\<close> and its \<open>k\<close> decimal digits, lowest first and padded with zeros,
  determine each other: \<open>digits_of k n\<close> are the digits, \<open>number_of ds\<close> is the number.
  \<open>digit_list n\<close> are the seven digits of \<open>n\<close> as 32-bit values.
\<close>

fun digits_of :: "nat \<Rightarrow> nat \<Rightarrow> nat list" where
  "digits_of 0 n = []"
| "digits_of (Suc k) n = (n mod 10) # digits_of k (n div 10)"

fun number_of :: "nat list \<Rightarrow> nat" where
  "number_of [] = 0"
| "number_of (d # ds) = d + 10 * number_of ds"

definition digit_list :: "nat \<Rightarrow> u32 list" where
  "digit_list n = map of_nat (digits_of 7 n)"

section \<open>squigit against the digit sum\<close>

lemma unat_of_nat_u32: "n < 2 ^ 32 \<Longrightarrow> unat (of_nat n :: u32) = n"
  by (rule of_nat_inverse [OF refl]) simp

lemma ten_pow_le_word:
  assumes "k \<le> 9"
  shows "unat ((10 :: u32) ^ k) = 10 ^ k"
proof -
  have "(10 :: nat) ^ k \<le> 10 ^ 9"
    using assms by (intro power_increasing) simp_all
  then have lt: "(10 :: nat) ^ k < 2 ^ 32" by simp
  have "unat ((10 :: u32) ^ k) = unat (of_nat (10 ^ k) :: u32)" by simp
  also have "\<dots> = 10 ^ k"
    using lt by (rule unat_of_nat_u32)
  finally show ?thesis .
qed

lemma squigit_loop_tenth: "squigit_loop 1000000000 ans 10 = Inr (ans + 1)"
proof -
  have P: "power_u32 10 10 = 1410065408" and Q: "power_u32 10 9 = 1000000000"
    by (simp_all add: power_u32_eq)
  have "squigit_loop 1000000000 ans 10 = squigit_loop 0 (ans + 1) 11"
    by (subst squigit_loop.simps) (simp add: P Q)
  also have "\<dots> = Inr (ans + 1)"
    by (subst squigit_loop.simps) simp
  finally show ?thesis .
qed

lemma squigit_loop_step:
  fixes val ans i :: u32
  assumes v: "unat val = m * 10 ^ k" and m: "0 < m" and k: "k < 9"
    and i: "unat i = Suc k"
  shows "\<exists>val'. squigit_loop val ans i =
            squigit_loop val' (ans + of_nat ((m mod 10) * (m mod 10))) (i + 1)
          \<and> unat val' = (m div 10) * 10 ^ Suc k \<and> unat (i + 1) = Suc (Suc k)"
proof -
  define P where "P = power_u32 10 i"
  define Q where "Q = power_u32 10 (i - 1)"
  have inz: "i \<noteq> 0"
    using i by (metis unat_0 nat.distinct(1))
  have i1: "unat (i - 1) = k"
    using i inz by (simp add: unat_minus_one)
  have "i < 10"
    using i k by (simp add: word_less_nat_alt)
  then have i2: "unat (i + 1) = Suc (Suc k)"
    using unat_inc_below(1) [of i 10] i by simp
  have P: "unat P = 10 ^ Suc k"
    unfolding P_def power_u32_eq i using k by (intro ten_pow_le_word) simp
  have Q: "unat Q = 10 ^ k"
    unfolding Q_def power_u32_eq i1 using k by (intro ten_pow_le_word) simp
  have Pnz: "P \<noteq> 0"
    using P by (metis unat_0 power_not_zero zero_neq_numeral)
  have Qnz: "Q \<noteq> 0"
    using Q by (metis unat_0 power_not_zero zero_neq_numeral)
  have "unat val \<noteq> 0"
    using v m by simp
  then have vnz: "val \<noteq> 0"
    by (metis unat_0)
  have "unat (val mod P) = (m * 10 ^ k) mod (10 * 10 ^ k)"
    by (simp only: unat_mod P v power_Suc)
  then have modv: "unat (val mod P) = (m mod 10) * 10 ^ k"
    by (simp only: mod_mult_mult2)
  have digit: "unat (val mod P div Q) = m mod 10"
    by (simp add: unat_div modv Q)
  have "val mod P \<le> val"
    by (simp add: word_le_nat_alt unat_mod)
  then have "unat (val - val mod P) = m * 10 ^ k - (m mod 10) * 10 ^ k"
    by (simp only: unat_sub modv v)
  also have "\<dots> = (m - m mod 10) * 10 ^ k"
    by (simp only: diff_mult_distrib)
  also have "\<dots> = m div 10 * 10 * 10 ^ k"
    by (simp only: minus_mod_eq_div_mult)
  finally have sub: "unat (val - val mod P) = m div 10 * 10 ^ Suc k"
    by (simp only: power_Suc mult.assoc)
  have d_eq: "val mod P div Q = of_nat (m mod 10)"
    unfolding digit [symmetric] by simp
  have "squigit_loop val ans i =
        squigit_loop (val - val mod P) (ans + (val mod P div Q) * (val mod P div Q)) (i + 1)"
    by (subst squigit_loop.simps)
       (simp only: vnz Pnz Qnz P_def [symmetric] Q_def [symmetric] if_True if_False not_False_eq_True)
  also have "(val mod P div Q) * (val mod P div Q) = of_nat ((m mod 10) * (m mod 10))"
    by (simp only: d_eq of_nat_mult)
  finally show ?thesis
    using sub i2 by blast
qed

lemma squigit_loop_correct:
  fixes val ans i :: u32
  shows "unat val = m * 10 ^ k \<Longrightarrow> m * 10 ^ k < 2 * 10 ^ 9 \<Longrightarrow> unat i = Suc k \<Longrightarrow>
         squigit_loop val ans i = Inr (ans + of_nat (digit_square_sum m))"
proof (induction m arbitrary: val ans i k rule: less_induct)
  case (less m)
  show ?case
  proof (cases "m = 0")
    case True
    with less.prems have "val = 0"
      by (metis unat_0_iff mult_zero_left)
    then show ?thesis
      using True by (subst squigit_loop.simps) (simp add: digit_square_sum.simps [of 0])
  next
    case False
    then have m: "0 < m" by simp
    then have pow: "10 ^ k \<le> m * 10 ^ k" by simp
    show ?thesis
    proof (cases "k < 9")
      case True
      from squigit_loop_step [OF less.prems(1) m True less.prems(3), of ans]
      obtain val' where
        step: "squigit_loop val ans i =
               squigit_loop val' (ans + of_nat ((m mod 10) * (m mod 10))) (i + 1)"
        and v': "unat val' = (m div 10) * 10 ^ Suc k" and i': "unat (i + 1) = Suc (Suc k)"
        by blast
      have lt: "m div 10 < m" using m by simp
      have "(m div 10) * 10 ^ Suc k = (m div 10 * 10) * 10 ^ k" by simp
      also have "\<dots> \<le> m * 10 ^ k"
        by (intro mult_right_mono) simp_all
      finally have b': "(m div 10) * 10 ^ Suc k < 2 * 10 ^ 9"
        using less.prems(2) by linarith
      have "squigit_loop val' (ans + of_nat ((m mod 10) * (m mod 10))) (i + 1) =
            Inr (ans + of_nat ((m mod 10) * (m mod 10)) + of_nat (digit_square_sum (m div 10)))"
        by (rule less.IH [OF lt v' b' i'])
      also have "\<dots> = Inr (ans + of_nat (digit_square_sum m))"
        using False by (subst (2) digit_square_sum.simps) (simp add: add.assoc)
      finally show ?thesis
        using step by simp
    next
      case large: False
      have k9: "k = 9"
      proof (rule ccontr)
        assume "k \<noteq> 9"
        with large have "10 \<le> k" by simp
        then have "(10 :: nat) ^ 10 \<le> 10 ^ k"
          by (intro power_increasing) simp_all
        then have "(10000000000 :: nat) \<le> 10 ^ k" by simp
        moreover from less.prems(2) have "m * 10 ^ k < 2000000000" by simp
        ultimately show False using pow by linarith
      qed
      with less.prems(2) m have m1: "m = 1" by simp
      from less.prems(1) k9 m1 have "unat val = 1000000000" by simp
      then have "of_nat (unat val) = (of_nat 1000000000 :: u32)" by simp
      then have val: "val = 1000000000" by simp
      from less.prems(3) k9 have "of_nat (unat i) = (of_nat 10 :: u32)" by simp
      then have i: "i = 10" by simp
      have "digit_square_sum 1 = 1"
        by (simp add: digit_square_sum.simps)
      with m1 show ?thesis
        by (simp only: val i squigit_loop_tenth of_nat_1)
    qed
  qed
qed

lemma squigit_correct:
  assumes "unat val < 10 ^ 9"
  shows "squigit val = Inr (of_nat (digit_square_sum (unat val)))"
  using squigit_loop_correct [of val "unat val" 0 1 0] assms
  by (simp add: squigit_def)

lemma digit_square_sum_0: "digit_square_sum 0 = 0"
  by (subst digit_square_sum.simps) simp

lemma digit_square_sum_pos: "0 < n \<Longrightarrow> 0 < digit_square_sum n"
proof (induction n rule: less_induct)
  case (less n)
  show ?case
  proof (cases "n mod 10 = 0")
    case True
    with less.prems have "0 < n div 10" by (metis div_greater_zero_iff dvd_imp_le mod_0_imp_dvd zero_less_numeral not_gr_zero)
    moreover have "n div 10 < n" using less.prems by simp
    ultimately have "0 < digit_square_sum (n div 10)" by (rule less.IH [rotated])
    with less.prems show ?thesis by (subst digit_square_sum.simps) simp
  next
    case False
    with less.prems show ?thesis by (subst digit_square_sum.simps) simp
  qed
qed

lemma digit_square_sum_le: "n < 10 ^ k \<Longrightarrow> digit_square_sum n \<le> 81 * k"
proof (induction k arbitrary: n)
  case 0
  then show ?case by (simp add: digit_square_sum_0)
next
  case (Suc k)
  have d: "n mod 10 \<le> 9"
    using mod_less_divisor [of 10 n] by linarith
  then have "(n mod 10) * (n mod 10) \<le> 9 * 9"
    by (rule mult_mono) simp_all
  moreover have "n div 10 < 10 ^ k"
    using Suc.prems by (simp add: less_mult_imp_div_less mult.commute)
  then have "digit_square_sum (n div 10) \<le> 81 * k"
    by (rule Suc.IH)
  ultimately show ?case
    by (subst digit_square_sum.simps) simp
qed

lemma squigit_below_ten_million:
  fixes i :: u32
  assumes "i < 10000000"
  shows "squigit i = Inr (of_nat (digit_square_sum (unat i)))"
    and "digit_square_sum (unat i) \<le> 567"
    and "unat (of_nat (digit_square_sum (unat i)) :: u32) = digit_square_sum (unat i)"
    and "i \<noteq> 0 \<Longrightarrow> 1 \<le> digit_square_sum (unat i)"
proof -
  from assms have lt: "unat i < 10 ^ 7"
    by (simp add: word_less_nat_alt)
  then have "unat i < 10 ^ 9" by simp
  then show "squigit i = Inr (of_nat (digit_square_sum (unat i)))"
    by (rule squigit_correct)
  from digit_square_sum_le [OF lt]
  show le: "digit_square_sum (unat i) \<le> 567" by simp
  then show "unat (of_nat (digit_square_sum (unat i)) :: u32) = digit_square_sum (unat i)"
    by (intro unat_of_nat_u32) simp
  show "1 \<le> digit_square_sum (unat i)" if "i \<noteq> 0"
  proof -
    from that have "0 < unat i" by (simp add: unat_gt_0)
    then have "0 < digit_square_sum (unat i)" by (rule digit_square_sum_pos)
    then show ?thesis by simp
  qed
qed

text \<open>
  Claim C9: the squigit of 0 is 0, of 44 is 32, of 85 is 89, of 89 is 145 and of 145 is 42.
\<close>

theorem squigit_examples:
  "squigit 0 = Inr 0 \<and> squigit 44 = Inr 32 \<and> squigit 85 = Inr 89
   \<and> squigit 89 = Inr 145 \<and> squigit 145 = Inr 42"
  by code_simp




text \<open>
  Claim C6: for every \<open>n\<close> with \<open>0 \<le> n < 10,000,000\<close>, \<open>squigit n\<close> returns a value in
  the range from 0 to 567.
\<close>

theorem squigit_range:
  fixes n :: u32
  assumes "0 \<le> n" and "n < 10000000"
  shows "\<exists>v. squigit n = Inr v \<and> 0 \<le> v \<and> v \<le> 567"
proof -
  let ?s = "digit_square_sum (unat n)"
  have "unat (of_nat ?s :: u32) \<le> unat (567 :: u32)"
    using squigit_below_ten_million(2,3) [OF assms(2)] by simp
  then have "(of_nat ?s :: u32) \<le> 567"
    by (simp only: word_le_nat_alt)
  with squigit_below_ten_million(1) [OF assms(2)] show ?thesis
    by simp
qed

theorem squigit_range_witness:
  "(0 :: u32) \<le> 9999999 \<and> (9999999 :: u32) < 10000000
   \<and> (\<exists>v. squigit 9999999 = Inr v \<and> 0 \<le> v \<and> v \<le> 567)"
  using squigit_range [of 9999999] by simp

section \<open>Chains\<close>

lemma all_from_toD: "all_from_to P i j \<Longrightarrow> i \<le> n \<Longrightarrow> n \<le> j \<Longrightarrow> P n"
proof (induction P i j rule: all_from_to.induct)
  case (1 P i j)
  from "1.prems" have nj: "\<not> j < i" by simp
  show ?case
  proof (cases "i = j")
    case True
    with "1.prems" show ?thesis
      by (subst (asm) all_from_to.simps) simp
  next
    case False
    with nj "1.prems"(1)
    have lo: "all_from_to P i ((i + j) div 2)" and hi: "all_from_to P ((i + j) div 2 + 1) j"
      by (subst (asm) all_from_to.simps, simp)+
    show ?thesis
    proof (cases "n \<le> (i + j) div 2")
      case True
      with "1.IH"(1) [OF nj False lo] "1.prems"(2) show ?thesis by simp
    next
      case upper: False
      then have "(i + j) div 2 + 1 \<le> n" by simp
      with "1.IH"(2) [OF nj False hi] "1.prems"(3) show ?thesis by simp
    qed
  qed
qed

lemma descends_numeral:
  "descends (numeral k) v n =
     (if n = 1 \<or> n = 89 \<or> (0 < n \<and> n < v) then True
      else descends (pred_numeral k) v (digit_square_sum n))"
  by (simp add: numeral_eq_Suc)

lemma descends_one:
  "descends 1 v n = (n = 1 \<or> n = 89 \<or> (0 < n \<and> n < v))"
  by simp

lemma chains_descend_upto_243: "all_from_to chain_descends 1 243"
  by (simp add: all_from_to.simps chain_descends_def descends_numeral descends_one
      digit_square_sum.simps)

lemma reaches_1_descends:
  assumes below: "\<And>m. 0 < m \<Longrightarrow> m < v \<Longrightarrow> \<exists>fuel b. reaches_1 fuel m = Some b"
  shows "descends fuel v n \<Longrightarrow> \<exists>fuel' b. reaches_1 fuel' n = Some b"
proof (induction fuel arbitrary: n)
  case 0
  then show ?case by simp
next
  case (Suc fuel)
  show ?case
  proof (cases "n = 1 \<or> n = 89")
    case True
    then have "reaches_1 (Suc 0) n = Some (n = 1)" by auto
    then show ?thesis by blast
  next
    case False
    show ?thesis
    proof (cases "0 < n \<and> n < v")
      case True
      then show ?thesis using below by blast
    next
      case lower: False
      with False Suc.prems have "descends fuel v (digit_square_sum n)" by simp
      then obtain fuel' b where "reaches_1 fuel' (digit_square_sum n) = Some b"
        using Suc.IH by blast
      with False have "reaches_1 (Suc fuel') n = Some b" by simp
      then show ?thesis by blast
    qed
  qed
qed

lemma reaches_1_upto_243: "0 < n \<Longrightarrow> n \<le> 243 \<Longrightarrow> \<exists>fuel b. reaches_1 fuel n = Some b"
proof (induction n rule: less_induct)
  case (less n)
  then have "chain_descends n"
    by (intro all_from_toD [OF chains_descend_upto_243]) simp_all
  then have "descends 12 n n"
    by (simp only: chain_descends_def)
  moreover have "\<exists>fuel b. reaches_1 fuel m = Some b" if "0 < m" and "m < n" for m
    using less.IH [of m] less.prems that by simp
  ultimately show ?case
    by (rule reaches_1_descends [rotated])
qed

lemma reaches_1_total:
  assumes "1 \<le> n" and "n \<le> 567"
  shows "\<exists>fuel b. reaches_1 fuel n = Some b"
proof (cases "n \<le> 243")
  case True
  with assms(1) show ?thesis
    by (intro reaches_1_upto_243) simp_all
next
  case False
  let ?s = "digit_square_sum n"
  from assms have "n < 10 ^ 3" by simp
  then have "?s \<le> 81 * 3" by (rule digit_square_sum_le)
  moreover from assms have "0 < ?s" by (intro digit_square_sum_pos) simp
  ultimately obtain fuel b where "reaches_1 fuel ?s = Some b"
    using reaches_1_upto_243 [of ?s] by auto
  moreover from False have "n \<noteq> 1" and "n \<noteq> 89" by simp_all
  ultimately have "reaches_1 (Suc fuel) n = Some b"
    by (simp only: reaches_1.simps if_False)
  then show ?thesis by blast
qed

lemma of_nat_u32_eq_iff:
  "n < 2 ^ 32 \<Longrightarrow> m < 2 ^ 32 \<Longrightarrow> (of_nat n :: u32) = of_nat m \<longleftrightarrow> n = m"
  by (metis unat_of_nat_u32)

lemma of_nat_u32_eq_1: "n < 10 ^ 9 \<Longrightarrow> (of_nat n :: u32) = 1 \<longleftrightarrow> n = 1"
  using of_nat_u32_eq_iff [of n 1] by simp

lemma of_nat_u32_eq_89: "n < 10 ^ 9 \<Longrightarrow> (of_nat n :: u32) = 89 \<longleftrightarrow> n = 89"
  using of_nat_u32_eq_iff [of n 89] by simp

lemma squigit_of_nat:
  assumes "n < 10 ^ 9"
  shows "squigit (of_nat n) = Inr (of_nat (digit_square_sum n))"
    and "digit_square_sum n < 10 ^ 9"
proof -
  from assms have "unat (of_nat n :: u32) = n"
    by (intro unat_of_nat_u32) simp
  with assms squigit_correct [of "of_nat n"]
  show "squigit (of_nat n) = Inr (of_nat (digit_square_sum n))" by simp
  from digit_square_sum_le [OF assms] show "digit_square_sum n < 10 ^ 9" by simp
qed

lemma to_1_chain_reaches:
  "reaches_1 fuel n = Some b \<Longrightarrow> n < 10 ^ 9 \<Longrightarrow> to_1_chain (of_nat n) = Some (Inr b)"
proof (induction fuel arbitrary: n)
  case 0
  then show ?case by simp
next
  case (Suc fuel)
  show ?case
  proof (cases "n = 1 \<or> n = 89")
    case True
    with Suc.prems show ?thesis
      by (subst to_1_chain.simps) (auto simp: of_nat_u32_eq_1 of_nat_u32_eq_89)
  next
    case False
    with Suc.prems have "reaches_1 fuel (digit_square_sum n) = Some b" by simp
    then have "to_1_chain (of_nat (digit_square_sum n)) = Some (Inr b)"
      using squigit_of_nat(2) [OF Suc.prems(2)] by (rule Suc.IH)
    with False Suc.prems(2) show ?thesis
      by (subst to_1_chain.simps)
         (simp add: of_nat_u32_eq_1 of_nat_u32_eq_89 squigit_of_nat(1))
  qed
qed

lemma BruteForce_chain_reaches:
  "reaches_1 fuel n = Some b \<Longrightarrow> n < 10 ^ 9 \<Longrightarrow> squigit c = Inr (of_nat n) \<Longrightarrow>
   BruteForce_chain c = Some (Inr (\<not> b))"
proof (induction fuel arbitrary: n c)
  case 0
  then show ?case by simp
next
  case (Suc fuel)
  show ?case
  proof (cases "n = 1 \<or> n = 89")
    case True
    with Suc.prems show ?thesis
      by (subst BruteForce_chain.simps) (auto simp: of_nat_u32_eq_1 of_nat_u32_eq_89)
  next
    case False
    with Suc.prems have "reaches_1 fuel (digit_square_sum n) = Some b" by simp
    then have "BruteForce_chain (of_nat n) = Some (Inr (\<not> b))"
      using squigit_of_nat [OF Suc.prems(2)] by (intro Suc.IH) 
    with False Suc.prems(2,3) show ?thesis
      by (subst BruteForce_chain.simps)
         (simp add: of_nat_u32_eq_1 of_nat_u32_eq_89)
  qed
qed

lemma squigit_iter_reaches:
  "reaches_1 fuel n = Some b \<Longrightarrow> n < 10 ^ 9 \<Longrightarrow>
   \<exists>k. squigit_iter k (of_nat n) = Inr (if b then 1 else 89)"
proof (induction fuel arbitrary: n)
  case 0
  then show ?case by simp
next
  case (Suc fuel)
  show ?case
  proof (cases "n = 1 \<or> n = 89")
    case True
    with Suc.prems have "squigit_iter 0 (of_nat n) = Inr (if b then 1 else 89)"
      by auto
    then show ?thesis by blast
  next
    case False
    with Suc.prems have "reaches_1 fuel (digit_square_sum n) = Some b" by simp
    then obtain k where "squigit_iter k (of_nat (digit_square_sum n)) = Inr (if b then 1 else 89)"
      using squigit_of_nat(2) [OF Suc.prems(2)] Suc.IH by blast
    then have "squigit_iter (Suc k) (of_nat n) = Inr (if b then 1 else 89)"
      using squigit_of_nat(1) [OF Suc.prems(2)] by simp
    then show ?thesis by blast
  qed
qed

text \<open>
  Claim C7: for every starting number \<open>i\<close> with \<open>1 \<le> i < 10,000,000\<close>, some positive
  number of applications of \<open>squigit\<close> arrives at 1 or at 89, and the inner loop of the
  brute-force classifier returns (without an error).
\<close>

theorem chain_reaches_1_or_89:
  fixes i :: u32
  assumes "1 \<le> i" and "i < 10000000"
  shows "(\<exists>k. 1 \<le> k \<and> (squigit_iter k i = Inr 1 \<or> squigit_iter k i = Inr 89))
         \<and> (\<exists>b. BruteForce_chain i = Some (Inr b))"
proof -
  let ?s = "digit_square_sum (unat i)"
  from assms(1) have "i \<noteq> 0" by auto
  note sq = squigit_below_ten_million [OF assms(2)]
  from sq(4) [OF \<open>i \<noteq> 0\<close>] sq(2) obtain fuel b where r: "reaches_1 fuel ?s = Some b"
    using reaches_1_total by blast
  from sq(2) have lt: "?s < 10 ^ 9" by simp
  from squigit_iter_reaches [OF r lt] obtain k where
    "squigit_iter k (of_nat ?s) = Inr (if b then 1 else 89)" ..
  with sq(1) have "squigit_iter (Suc k) i = Inr (if b then 1 else 89)" by simp
  then have "squigit_iter (Suc k) i = Inr 1 \<or> squigit_iter (Suc k) i = Inr 89"
    by (cases b) simp_all
  moreover have "1 \<le> Suc k" by simp
  ultimately have "\<exists>k. 1 \<le> k \<and> (squigit_iter k i = Inr 1 \<or> squigit_iter k i = Inr 89)"
    by blast
  moreover from BruteForce_chain_reaches [OF r lt sq(1)]
  have "\<exists>b. BruteForce_chain i = Some (Inr b)" by blast
  ultimately show ?thesis by blast
qed

theorem chain_reaches_1_or_89_witness:
  "(1 :: u32) \<le> 44 \<and> (44 :: u32) < 10000000
   \<and> (\<exists>k. 1 \<le> k \<and> (squigit_iter k 44 = Inr 1 \<or> squigit_iter k 44 = Inr 89))
   \<and> (\<exists>b. BruteForce_chain 44 = Some (Inr b))"
  using chain_reaches_1_or_89 [of 44] by simp

section \<open>The number of starting numbers of a combination\<close>

lemma fact_loop_eq: "num \<noteq> 0 \<Longrightarrow> fact_loop ans num = ans * of_nat (fact (unat num))"
proof (induction ans num rule: fact_loop.induct)
  case (1 ans num)
  show ?case
  proof (cases "num = 1")
    case True
    then show ?thesis by (subst fact_loop.simps) simp
  next
    case False
    with "1.prems" have nz: "num - 1 \<noteq> 0" by simp
    from "1.prems" have "unat num = Suc (unat (num - 1))"
      by (simp add: unat_minus_one unat_gt_0)
    then have "(fact (unat num) :: nat) = unat num * fact (unat (num - 1))"
      by (metis fact_Suc of_nat_id)
    then have "(of_nat (fact (unat num)) :: u32) = of_nat (unat num) * of_nat (fact (unat (num - 1)))"
      by (simp only: of_nat_mult)
    also have "\<dots> = num * of_nat (fact (unat (num - 1)))"
      by simp
    finally have f: "(of_nat (fact (unat num)) :: u32) = num * of_nat (fact (unat (num - 1)))" .
    have "fact_loop ans num = fact_loop (ans * num) (num - 1)"
      using False by (subst fact_loop.simps) simp
    also have "\<dots> = ans * num * of_nat (fact (unat (num - 1)))"
      using False nz by (rule "1.IH")
    finally show ?thesis
      by (simp only: f mult.assoc)
  qed
qed

lemma fact_12: "fact 12 = (479001600 :: nat)"
  by (simp add: fact_numeral)

lemma fact_u32_small:
  assumes "0 < n" and "n \<le> 12"
  shows "unat (fact_u32 (of_nat n)) = fact n" and "fact_u32 (of_nat n) \<noteq> 0"
proof -
  from assms have n: "unat (of_nat n :: u32) = n"
    by (intro unat_of_nat_u32) simp
  with assms have "(of_nat n :: u32) \<noteq> 0"
    by (metis unat_0 less_numeral_extra(3))
  then have eq: "fact_u32 (of_nat n) = of_nat (fact n)"
    by (simp add: fact_u32_def fact_loop_eq n)
  have "(fact n :: nat) \<le> fact 12"
    using assms(2) by (rule fact_mono)
  then have "(fact n :: nat) < 2 ^ 32"
    by (simp add: fact_12)
  then show u: "unat (fact_u32 (of_nat n)) = fact n"
    unfolding eq by (rule unat_of_nat_u32)
  have "(fact n :: nat) \<noteq> 0" by simp
  with u show "fact_u32 (of_nat n) \<noteq> 0"
    by (metis unat_0)
qed

lemma count_duplicates_eq:
  assumes "length dup = 10"
  shows "\<forall>val\<in>set combo. val < 10 \<Longrightarrow>
         count_duplicates combo dup =
           Inr (map (\<lambda>j. dup ! j + int (count_list combo (of_nat j))) [0..<10])"
  using assms
proof (induction combo arbitrary: dup)
  case Nil
  then show ?case
    by (simp add: map_nth [symmetric] del: map_nth upt_rec_numeral)
       (metis map_nth)
next
  case (Cons val combo)
  from Cons.prems(1) have v: "unat val < 10"
    by (simp add: word_less_nat_alt)
  let ?dup = "dup[unat val := dup ! unat val + 1]"
  have len: "length ?dup = 10" using Cons.prems(2) by simp
  have "count_duplicates (val # combo) dup = count_duplicates combo ?dup"
    using v Cons.prems(2) by simp
  also have "\<dots> = Inr (map (\<lambda>j. ?dup ! j + int (count_list combo (of_nat j))) [0..<10])"
    using Cons.prems(1) len by (intro Cons.IH) simp_all
  also have "map (\<lambda>j. ?dup ! j + int (count_list combo (of_nat j))) [0..<10] =
             map (\<lambda>j. dup ! j + int (count_list (val # combo) (of_nat j))) [0..<10]"
  proof (rule map_cong [OF refl])
    fix j assume "j \<in> set [0..<10]"
    then have j: "j < 10" by simp
    then have uj: "unat (of_nat j :: u32) = j"
      by (intro unat_of_nat_u32) simp
    have iff: "val = of_nat j \<longleftrightarrow> unat val = j"
    proof
      assume "val = of_nat j"
      with uj show "unat val = j" by simp
    next
      assume "unat val = j"
      then have "of_nat (unat val) = (of_nat j :: u32)" by simp
      then show "val = of_nat j" by simp
    qed
    show "?dup ! j + int (count_list combo (of_nat j)) =
          dup ! j + int (count_list (val # combo) (of_nat j))"
      using j Cons.prems(2) by (auto simp: nth_list_update iff)
  qed
  finally show ?case .
qed

lemma divide_by_duplicates_eq:
  "\<forall>d\<in>set dups. 0 \<le> d \<and> d \<le> 12 \<Longrightarrow>
   divide_by_duplicates dups sn = Inr (of_nat (unat sn div (\<Prod>d\<leftarrow>dups. fact (nat d))))"
proof (induction dups arbitrary: sn)
  case Nil
  then show ?case by simp
next
  case (Cons d dups)
  then have IH: "divide_by_duplicates dups sn' =
      Inr (of_nat (unat sn' div (\<Prod>d\<leftarrow>dups. fact (nat d))))" for sn'
    by simp
  show ?case
  proof (cases "0 < d")
    case True
    from Cons.prems have "d \<le> 12" by simp
    with True have n: "0 < nat d" "nat d \<le> 12" by linarith+
    have w: "(word_of_int d :: u32) = of_nat (nat d)"
      using True by simp
    note f = fact_u32_small [OF n]
    have "unat (sn div fact_u32 (word_of_int d)) = unat sn div fact (nat d)"
      by (simp only: w unat_div f(1))
    then have "unat (sn div fact_u32 (word_of_int d)) div (\<Prod>d\<leftarrow>dups. fact (nat d)) =
          unat sn div (\<Prod>d\<leftarrow>d # dups. fact (nat d))"
      by (simp add: div_mult2_eq)
    with True f(2) show ?thesis
      by (simp add: IH w del: of_nat_nat)
  next
    case False
    with Cons.prems have "d = 0" by simp
    then show ?thesis by (simp add: IH)
  qed
qed

lemma digits_image: "(of_nat :: nat \<Rightarrow> u32) ` {0..<10} = {d. d < 10}"
proof (rule set_eqI, rule iffI)
  fix d :: u32
  assume "d \<in> of_nat ` {0..<10}"
  then obtain j where j: "j < 10" "d = of_nat j" by auto
  then have "unat d = j" by (simp add: unat_of_nat_u32)
  with j show "d \<in> {d. d < 10}" by (simp add: word_less_nat_alt)
next
  fix d :: u32
  assume "d \<in> {d. d < 10}"
  then have "unat d < 10" by (simp add: word_less_nat_alt)
  moreover have "d = of_nat (unat d)" by simp
  ultimately show "d \<in> of_nat ` {0..<10}" by (metis atLeastLessThan_iff image_eqI zero_le)
qed

lemma digits_inj: "inj_on (of_nat :: nat \<Rightarrow> u32) {0..<10}"
proof (rule inj_onI)
  fix x y :: nat
  assume "x \<in> {0..<10}" "y \<in> {0..<10}" "(of_nat x :: u32) = of_nat y"
  then show "x = y"
    using of_nat_u32_eq_iff [of x y] by simp
qed

lemma prod_digit_counts:
  fixes combo :: "u32 list"
  assumes "\<forall>d\<in>set combo. d < 10"
  shows "(\<Prod>j\<leftarrow>[0..<10]. fact (count_list combo (of_nat j)) :: nat) =
         (\<Prod>d\<in>set combo. fact (count_list combo d))"
proof -
  have "(\<Prod>j\<leftarrow>[0..<10]. fact (count_list combo (of_nat j)) :: nat) =
        (\<Prod>j\<in>{0..<10}. fact (count_list combo (of_nat j)))"
    using prod.distinct_set_conv_list [of "[0..<10]" "\<lambda>j. fact (count_list combo (of_nat j)) :: nat"]
    by (simp del: upt_rec_numeral)
  also have "\<dots> = (\<Prod>d\<in>of_nat ` {0..<10}. fact (count_list combo d))"
    using prod.reindex [OF digits_inj, where g = "\<lambda>d. fact (count_list combo d) :: nat"]
    by (simp add: comp_def)
  also have "\<dots> = (\<Prod>d\<in>{d. d < 10}. fact (count_list combo d))"
    by (simp only: digits_image)
  also have "\<dots> = (\<Prod>d\<in>set combo. fact (count_list combo d))"
  proof (rule prod.mono_neutral_right)
    show "finite {d :: u32. d < 10}" by simp
    show "set combo \<subseteq> {d. d < 10}" using assms by auto
    show "\<forall>d\<in>{d. d < 10} - set combo. (fact (count_list combo d) :: nat) = 1"
      by (simp add: count_list_0_iff)
  qed
  finally show ?thesis .
qed

lemma starting_numbers_of_eq:
  assumes len: "0 < length combo" "length combo \<le> 12" and digits: "\<forall>d\<in>set combo. d < 10"
  shows "starting_numbers_of combo = Inr (of_nat (permutation_count combo))"
proof -
  let ?dups = "map (\<lambda>j. int (count_list combo (of_nat j))) [0..<10]"
  have "count_duplicates combo (replicate 10 0) =
        Inr (map (\<lambda>j. replicate 10 0 ! j + int (count_list combo (of_nat j))) [0..<10])"
    using digits by (intro count_duplicates_eq) simp_all
  also have "map (\<lambda>j. replicate 10 0 ! j + int (count_list combo (of_nat j))) [0..<10] = ?dups"
    by (rule map_cong) simp_all
  finally have cd: "count_duplicates combo (replicate 10 0) = Inr ?dups" .
  have bound: "\<forall>d\<in>set ?dups. 0 \<le> d \<and> d \<le> 12"
  proof
    fix d assume "d \<in> set ?dups"
    then obtain j where "d = int (count_list combo (of_nat j))" by auto
    moreover have "count_list combo (of_nat j :: u32) \<le> length combo"
      by (rule count_le_length)
    ultimately show "0 \<le> d \<and> d \<le> 12" using len(2) by simp
  qed
  have "(\<Prod>d\<leftarrow>?dups. fact (nat d) :: nat) =
        (\<Prod>j\<leftarrow>[0..<10]. fact (count_list combo (of_nat j)))"
    by (simp add: comp_def del: upt_rec_numeral)
  also have "\<dots> = (\<Prod>d\<in>set combo. fact (count_list combo d))"
    using digits by (rule prod_digit_counts)
  finally have prod: "(\<Prod>d\<leftarrow>?dups. fact (nat d) :: nat) =
        (\<Prod>d\<in>set combo. fact (count_list combo d))" .
  have "starting_numbers_of combo = divide_by_duplicates ?dups (fact_u32 (of_nat (length combo)))"
    by (simp only: starting_numbers_of_def cd sum.case)
  also have "\<dots> = Inr (of_nat (unat (fact_u32 (of_nat (length combo)))
                       div (\<Prod>d\<leftarrow>?dups. fact (nat d))))"
    using bound by (rule divide_by_duplicates_eq)
  also have "unat (fact_u32 (of_nat (length combo))) = fact (length combo)"
    using len by (rule fact_u32_small(1))
  finally show ?thesis
    by (simp only: prod permutation_count_def)
qed

lemma count_list_distinct: "distinct xs \<Longrightarrow> x \<in> set xs \<Longrightarrow> count_list xs x = 1"
  by (induction xs) (auto simp: count_list_0_iff)

lemma count_list_replicate: "count_list (replicate n x) x = n"
  by (induction n) auto

lemma permutation_count_distinct:
  assumes "distinct combo"
  shows "permutation_count combo = fact (length combo)"
proof -
  have "(\<Prod>d\<in>set combo. fact (count_list combo d) :: nat) = (\<Prod>d\<in>set combo. 1)"
    using assms by (intro prod.cong refl) (simp add: count_list_distinct)
  then show ?thesis
    by (simp add: permutation_count_def)
qed

lemma permutation_count_replicate:
  assumes "0 < n"
  shows "permutation_count (replicate n d) = 1"
proof -
  from assms have "set (replicate n d) = {d}" by auto
  then show ?thesis
    by (simp add: permutation_count_def count_list_replicate)
qed

lemma fact_7: "fact 7 = (5040 :: nat)"
  by (simp add: fact_numeral)

text \<open>
  Claim C8: for a combination of seven digits, the number of starting numbers that
  \<open>DigitsMethod::solve\<close> computes is \<open>7!\<close> divided by the product of the factorials of the
  repeat count of each distinct digit; it is 5040 when no digit repeats and 1 when the
  seven digits are the same.
\<close>

theorem starting_numbers_formula:
  assumes "length combo = 7" and "\<forall>d\<in>set combo. d < 10"
  shows "starting_numbers_of combo =
           Inr (of_nat (fact 7 div (\<Prod>d\<in>set combo. fact (count_list combo d))))
         \<and> (distinct combo \<longrightarrow> starting_numbers_of combo = Inr 5040)
         \<and> ((\<exists>d. combo = replicate 7 d) \<longrightarrow> starting_numbers_of combo = Inr 1)"
proof -
  have eq: "starting_numbers_of combo = Inr (of_nat (permutation_count combo))"
    using assms by (intro starting_numbers_of_eq) simp_all
  have "starting_numbers_of combo =
        Inr (of_nat (fact 7 div (\<Prod>d\<in>set combo. fact (count_list combo d))))"
    using assms(1) by (simp only: eq permutation_count_def)
  moreover have "starting_numbers_of combo = Inr 5040" if "distinct combo"
    using permutation_count_distinct [OF that] assms(1) by (simp add: eq fact_7)
  moreover have "starting_numbers_of combo = Inr 1" if "\<exists>d. combo = replicate 7 d"
    using that permutation_count_replicate [of 7] by (auto simp: eq)
  ultimately show ?thesis by blast
qed

theorem starting_numbers_formula_witness:
  "length [1, 1, 2, 2, 3, 3, 3 :: u32] = 7 \<and> starting_numbers_of [1, 1, 2, 2, 3, 3, 3] = Inr 210
   \<and> starting_numbers_of [0, 1, 2, 3, 4, 5, 6] = Inr 5040
   \<and> starting_numbers_of [5, 5, 5, 5, 5, 5, 5] = Inr 1"
proof -
  have a: "starting_numbers_of [1, 1, 2, 2, 3, 3, 3] = Inr 210"
    using starting_numbers_formula [of "[1, 1, 2, 2, 3, 3, 3]"]
    by (simp add: fact_numeral)
  have b: "starting_numbers_of [0, 1, 2, 3, 4, 5, 6] = Inr 5040"
    using starting_numbers_formula [of "[0, 1, 2, 3, 4, 5, 6]"] by (simp add: fact_numeral)
  have "[5, 5, 5, 5, 5, 5, 5 :: u32] = replicate 7 5"
    by (simp add: numeral_eq_Suc)
  then have c: "starting_numbers_of [5, 5, 5, 5, 5, 5, 5] = Inr 1"
    using starting_numbers_formula [of "[5, 5, 5, 5, 5, 5, 5]"] by auto
  from a b c show ?thesis by simp
qed

section \<open>The combinations\<close>

lemma combination_loop_acc:
  "combination_loop todo elements_to_use r return_val =
   return_val @ combination_loop todo elements_to_use r []"
proof (induction todo arbitrary: elements_to_use return_val)
  case Nil
  show ?case by (simp add: combination.simps)
next
  case (Cons element rest)
  let ?new = "map (\<lambda>combo. combo @ [element]) (combination elements_to_use (r - 1))"
  let ?etu = "remove_element elements_to_use element"
  have "combination_loop (element # rest) elements_to_use r return_val =
        combination_loop rest ?etu r (return_val @ ?new)"
    by (simp add: combination.simps)
  also have "\<dots> = (return_val @ ?new) @ combination_loop rest ?etu r []"
    by (rule Cons.IH)
  also have "\<dots> = return_val @ (?new @ combination_loop rest ?etu r [])"
    by simp
  also have "?new @ combination_loop rest ?etu r [] = combination_loop rest ?etu r ?new"
    by (rule Cons.IH [symmetric])
  also have "\<dots> = combination_loop (element # rest) elements_to_use r []"
    by (simp add: combination.simps)
  finally show ?case .
qed

lemma combination_Nil: "combination [] r = []"
  by (simp add: combination.simps)

lemma combination_1: "combination elements 1 = map (\<lambda>element. [element]) elements"
  by (simp add: combination.simps)

lemma combination_Cons:
  assumes "r \<noteq> 1"
  shows "combination (element # rest) r =
         map (\<lambda>combo. combo @ [element]) (combination (element # rest) (r - 1))
         @ combination rest r"
proof -
  let ?new = "map (\<lambda>combo. combo @ [element]) (combination (element # rest) (r - 1))"
  have "combination (element # rest) r = combination_loop rest rest r ?new"
    using assms by (simp add: combination.simps)
  also have "\<dots> = ?new @ combination_loop rest rest r []"
    by (rule combination_loop_acc)
  also have "combination_loop rest rest r [] = combination rest r"
    using assms by (simp add: combination.simps(1))
  finally show ?thesis .
qed

lemma combination_combos:
  "0 < k \<Longrightarrow> k < 2 ^ 32 \<Longrightarrow> combination elements (of_nat k) = combos elements k"
proof (induction elements k rule: combos.induct)
  case (1 elements)
  then show ?case by simp
next
  case (2 k)
  show ?case by (simp only: combination_Nil combos.simps)
next
  case (3 element rest k)
  show ?case
  proof (cases "k = 0")
    case True
    have "combos rest (Suc 0) = map (\<lambda>element. [element]) rest"
      by (induction rest) simp_all
    with True show ?thesis
      by (simp add: combination_1)
  next
    case False
    from "3.prems" have k: "0 < k" "k < 2 ^ 32" "Suc k < 2 ^ 32"
      using False by simp_all
    have "unat (of_nat (Suc k) :: u32) = Suc k"
      using k(3) by (rule unat_of_nat_u32)
    with False have ne: "(of_nat (Suc k) :: u32) \<noteq> 1"
      by (metis unat_1 One_nat_def nat.inject)
    have pred: "(of_nat (Suc k) :: u32) - 1 = of_nat k" by simp
    have "combination (element # rest) (of_nat (Suc k)) =
          map (\<lambda>combo. combo @ [element]) (combination (element # rest) (of_nat k))
          @ combination rest (of_nat (Suc k))"
      using combination_Cons [OF ne, of element rest] by (simp only: pred)
    also have "combination (element # rest) (of_nat k) = combos (element # rest) k"
      using k by (intro "3.IH"(1))
    also have "combination rest (of_nat (Suc k)) = combos rest (Suc k)"
      using "3.prems" by (intro "3.IH"(2))
    finally show ?thesis by simp
  qed
qed

lemma combination_nums_eq_combos: "combination nums 7 = combos nums 7"
  using combination_combos [of 7 nums] by simp

lemma length_combos: "length (combos elements k) = (length elements + k - 1) choose k"
proof (induction elements k rule: combos.induct)
  case (1 elements)
  show ?case by simp
next
  case (2 k)
  show ?case by simp
next
  case (3 element rest k)
  have "length (combos (element # rest) (Suc k)) =
        ((length rest + k) choose k) + ((length rest + k) choose Suc k)"
    using 3 by simp
  also have "\<dots> = Suc (length rest + k) choose Suc k"
    by simp
  finally show ?case by simp
qed

lemma combos_member:
  "combo \<in> set (combos elements k) \<Longrightarrow> length combo = k \<and> set combo \<subseteq> set elements"
proof (induction elements k arbitrary: combo rule: combos.induct)
  case (1 elements)
  then show ?case by simp
next
  case (2 k)
  then show ?case by simp
next
  case (3 element rest k)
  from "3.prems" consider
      c where "c \<in> set (combos (element # rest) k)" "combo = c @ [element]"
    | "combo \<in> set (combos rest (Suc k))"
    by auto
  then show ?case
  proof cases
    case 1
    with "3.IH"(1) [of c] show ?thesis by auto
  next
    case 2
    with "3.IH"(2) [of combo] show ?thesis by auto
  qed
qed

lemma mset_combos:
  "distinct elements \<Longrightarrow>
   distinct (map mset (combos elements k))
   \<and> mset ` set (combos elements k) = {M. size M = k \<and> set_mset M \<subseteq> set elements}"
proof (induction elements k rule: combos.induct)
  case (1 elements)
  show ?case by auto
next
  case (2 k)
  show ?case by auto
next
  case (3 element rest k)
  let ?with = "map (\<lambda>combo. combo @ [element]) (combos (element # rest) k)"
  from "3.prems" have d: "distinct rest" and notin: "element \<notin> set rest" by simp_all
  note IH1 = "3.IH"(1) [OF "3.prems"] and IH2 = "3.IH"(2) [OF d]
  have m: "map mset ?with = map (add_mset element) (map mset (combos (element # rest) k))"
    by simp
  have d1: "distinct (map mset ?with)"
    unfolding m using IH1 by (simp add: distinct_map inj_on_def del: map_map)
  have s1: "mset ` set ?with = add_mset element ` {M. size M = k \<and> set_mset M \<subseteq> set (element # rest)}"
    using IH1 by (simp add: image_image flip: image_image [of "add_mset element" mset])
  have disj: "mset ` set ?with \<inter> mset ` set (combos rest (Suc k)) = {}"
  proof -
    have "element \<in># M" if "M \<in> mset ` set ?with" for M
      using that by auto
    moreover have "element \<notin># M" if "M \<in> mset ` set (combos rest (Suc k))" for M
      using that IH2 notin by auto
    ultimately show ?thesis by blast
  qed
  have "map mset (combos (element # rest) (Suc k)) =
        map mset ?with @ map mset (combos rest (Suc k))"
    by simp
  moreover have "set (map mset ?with) \<inter> set (map mset (combos rest (Suc k))) = {}"
    using disj by (simp only: set_map)
  ultimately have dist: "distinct (map mset (combos (element # rest) (Suc k)))"
    using d1 IH2 by (simp only: distinct_append)
  have "add_mset element ` {M. size M = k \<and> set_mset M \<subseteq> set (element # rest)}
        \<union> {M. size M = Suc k \<and> set_mset M \<subseteq> set rest}
        = {M. size M = Suc k \<and> set_mset M \<subseteq> set (element # rest)}" (is "?A \<union> ?B = ?C")
  proof (rule set_eqI, rule iffI)
    fix M assume "M \<in> ?A \<union> ?B"
    then show "M \<in> ?C" by auto
  next
    fix M assume M: "M \<in> ?C"
    show "M \<in> ?A \<union> ?B"
    proof (cases "element \<in># M")
      case True
      then obtain N where N: "M = add_mset element N"
        by (meson multi_member_split)
      with M have "size N = k \<and> set_mset N \<subseteq> set (element # rest)" by auto
      with N show ?thesis by blast
    next
      case False
      with M have "set_mset M \<subseteq> set rest" by auto
      with M show ?thesis by simp
    qed
  qed
  then have "mset ` set (combos (element # rest) (Suc k)) =
        {M. size M = Suc k \<and> set_mset M \<subseteq> set (element # rest)}"
    using s1 IH2 by (simp add: image_Un)
  with dist show ?case by blast
qed

lemma choose_16_7: "(16 :: nat) choose 7 = 11440"
  by (simp add: binomial_fact_lemma numeral_eq_Suc binomial_Suc_Suc)

text \<open>
  Claim C2: \<open>combination\<close>, applied to the digits 0 to 9 with \<open>r = 7\<close>, returns 11440
  combinations, no two of them the same multiset, each of seven digits, and every multiset
  of seven digits is among them.
\<close>

theorem combination_digits_7:
  "length (combination nums 7) = 11440
   \<and> distinct (map mset (combination nums 7))
   \<and> (\<forall>combo\<in>set (combination nums 7).
        length combo = 7 \<and> set combo \<subseteq> {0, 1, 2, 3, 4, 5, 6, 7, 8, 9})
   \<and> (\<forall>M. size M = 7 \<and> set_mset M \<subseteq> {0, 1, 2, 3, 4, 5, 6, 7, 8, 9}
        \<longrightarrow> M \<in> mset ` set (combination nums 7))"
proof -
  have s: "set nums = {0, 1, 2, 3, 4, 5, 6, 7, 8, 9}"
    by (simp add: nums_def)
  have d: "distinct nums"
    by (simp add: nums_def)
  have "length (combination nums 7) = (length nums + 7 - 1) choose 7"
    by (simp only: combination_nums_eq_combos length_combos)
  also have "\<dots> = 11440"
    by (simp add: nums_def choose_16_7)
  finally have len: "length (combination nums 7) = 11440" .
  from mset_combos [OF d, of 7]
  have dist: "distinct (map mset (combination nums 7))"
    and all: "mset ` set (combination nums 7) = {M. size M = 7 \<and> set_mset M \<subseteq> set nums}"
    by (simp_all only: combination_nums_eq_combos)
  have mem: "\<forall>combo\<in>set (combination nums 7).
        length combo = 7 \<and> set combo \<subseteq> {0, 1, 2, 3, 4, 5, 6, 7, 8, 9}"
    using combos_member [of _ nums 7] by (simp only: combination_nums_eq_combos s) blast
  from all have "\<forall>M. size M = 7 \<and> set_mset M \<subseteq> {0, 1, 2, 3, 4, 5, 6, 7, 8, 9}
        \<longrightarrow> M \<in> mset ` set (combination nums 7)"
    by (simp only: s) blast
  with len dist mem show ?thesis by blast
qed

theorem combination_digits_7_witness:
  "size (mset [9, 9, 4, 4, 4, 0, 0 :: u32]) = 7
   \<and> mset [9, 9, 4, 4, 4, 0, 0 :: u32] \<in> mset ` set (combination nums 7)
   \<and> length (combination nums 7) = 11440"
proof -
  have "set_mset (mset [9, 9, 4, 4, 4, 0, 0 :: u32]) \<subseteq> {0, 1, 2, 3, 4, 5, 6, 7, 8, 9}"
    by simp
  moreover have "size (mset [9, 9, 4, 4, 4, 0, 0 :: u32]) = 7"
    by simp
  ultimately show ?thesis
    using combination_digits_7 by blast
qed

section \<open>Counting the permutations of a combination\<close>

lemma finite_arrangements: "finite (arrangements M)"
proof (rule finite_subset)
  show "arrangements M \<subseteq> {xs. set xs \<subseteq> set_mset M \<and> length xs = size M}"
    by (auto simp: arrangements_def)
  show "finite {xs. set xs \<subseteq> set_mset M \<and> length xs = size M}"
    by (rule finite_lists_length_eq) simp
qed

lemma arrangements_by_head:
  assumes "M \<noteq> {#}"
  shows "arrangements M = (\<Union>x\<in>set_mset M. (#) x ` arrangements (M - {#x#}))"
proof (rule set_eqI, rule iffI)
  fix xs assume "xs \<in> arrangements M"
  then have m: "mset xs = M" by (simp add: arrangements_def)
  with assms obtain y ys where xs: "xs = y # ys" by (cases xs) auto
  with m have "y \<in># M" and "mset ys = M - {#y#}" by auto
  with xs show "xs \<in> (\<Union>x\<in>set_mset M. (#) x ` arrangements (M - {#x#}))"
    by (auto simp: arrangements_def)
next
  fix xs assume "xs \<in> (\<Union>x\<in>set_mset M. (#) x ` arrangements (M - {#x#}))"
  then obtain y ys where "y \<in># M" "mset ys = M - {#y#}" "xs = y # ys"
    by (auto simp: arrangements_def)
  then show "xs \<in> arrangements M"
    by (simp add: arrangements_def)
qed

lemma card_arrangements_by_head:
  assumes "M \<noteq> {#}"
  shows "card (arrangements M) = (\<Sum>x\<in>set_mset M. card (arrangements (M - {#x#})))"
proof -
  have "card (\<Union>x\<in>set_mset M. (#) x ` arrangements (M - {#x#})) =
        (\<Sum>x\<in>set_mset M. card ((#) x ` arrangements (M - {#x#})))"
  proof (rule card_UN_disjoint)
    show "finite (set_mset M)" by simp
    show "\<forall>x\<in>set_mset M. finite ((#) x ` arrangements (M - {#x#}))"
      by (simp add: finite_arrangements)
    show "\<forall>x\<in>set_mset M. \<forall>y\<in>set_mset M. x \<noteq> y \<longrightarrow>
          (#) x ` arrangements (M - {#x#}) \<inter> (#) y ` arrangements (M - {#y#}) = {}"
      by auto
  qed
  also have "\<dots> = (\<Sum>x\<in>set_mset M. card (arrangements (M - {#x#})))"
    by (intro sum.cong refl card_image) simp
  finally show ?thesis
    using arrangements_by_head [OF assms] by simp
qed

lemma repeat_factorials_superset:
  assumes "finite A" and "set_mset M \<subseteq> A"
  shows "repeat_factorials M = (\<Prod>x\<in>A. fact (count M x))"
  unfolding repeat_factorials_def
proof (rule prod.mono_neutral_left)
  show "\<forall>x\<in>A - set_mset M. (fact (count M x) :: nat) = 1"
    by (simp add: not_in_iff)
qed (use assms in auto)

lemma repeat_factorials_remove:
  assumes "x \<in># M"
  shows "repeat_factorials M = count M x * repeat_factorials (M - {#x#})"
proof -
  let ?N = "M - {#x#}"
  let ?A = "set_mset M"
  have sub: "set_mset ?N \<subseteq> ?A" by (meson in_diffD subsetI)
  from assms have cx: "count M x = Suc (count ?N x)"
    by (metis count_greater_zero_iff count_diff count_single Suc_pred' diff_is_0_eq
        less_one linorder_not_le)
  from cx have fx: "(fact (count M x) :: nat) = count M x * fact (count ?N x)"
    by (metis fact_Suc of_nat_id)
  have "repeat_factorials M = (\<Prod>y\<in>?A. fact (count M y))"
    by (simp add: repeat_factorials_def)
  also have "\<dots> = (\<Prod>y\<in>?A. (if y = x then count M x else 1) * fact (count ?N y))"
  proof (rule prod.cong [OF refl])
    fix y assume "y \<in> ?A"
    show "(fact (count M y) :: nat) = (if y = x then count M x else 1) * fact (count ?N y)"
    proof (cases "y = x")
      case True
      with fx show ?thesis by (simp only: refl if_True)
    next
      case False
      then show ?thesis by simp
    qed
  qed
  also have "\<dots> = (\<Prod>y\<in>?A. if y = x then count M x else 1) * (\<Prod>y\<in>?A. fact (count ?N y))"
    by (rule prod.distrib)
  also have "(\<Prod>y\<in>?A. if y = x then count M x else 1) = count M x"
    using assms by (simp add: prod.delta)
  also have "(\<Prod>y\<in>?A. fact (count ?N y)) = repeat_factorials ?N"
    using sub by (intro repeat_factorials_superset [symmetric]) simp_all
  finally show ?thesis .
qed

lemma card_arrangements:
  "card (arrangements M) * repeat_factorials M = fact (size M)"
proof (induction "size M" arbitrary: M)
  case 0
  then have "M = {#}" by simp
  then show ?case
    by (simp add: arrangements_def repeat_factorials_def)
next
  case (Suc n)
  then have ne: "M \<noteq> {#}" by auto
  have step: "card (arrangements (M - {#x#})) * repeat_factorials M = count M x * fact n"
    if "x \<in># M" for x
  proof -
    from that Suc.hyps(2) have "n = size (M - {#x#})"
      by (simp add: size_Diff_singleton)
    then have "card (arrangements (M - {#x#})) * repeat_factorials (M - {#x#}) = fact n"
      using Suc.hyps(1) by simp
    then show ?thesis
      by (simp add: repeat_factorials_remove [OF that] mult.left_commute mult.commute)
  qed
  have "card (arrangements M) * repeat_factorials M =
        (\<Sum>x\<in>set_mset M. card (arrangements (M - {#x#})) * repeat_factorials M)"
    by (simp add: card_arrangements_by_head [OF ne] sum_distrib_right)
  also have "\<dots> = (\<Sum>x\<in>set_mset M. count M x * fact n)"
    by (intro sum.cong refl step) simp
  also have "\<dots> = (\<Sum>x\<in>set_mset M. count M x) * fact n"
    by (simp add: sum_distrib_right)
  also have "(\<Sum>x\<in>set_mset M. count M x) = Suc n"
    by (simp add: Suc.hyps(2) size_multiset_overloaded_eq)
  also have "Suc n * fact n = fact (Suc n)"
    by simp
  finally show ?case
    by (simp only: Suc.hyps(2))
qed

lemma repeat_factorials_pos: "0 < repeat_factorials M"
  by (simp add: repeat_factorials_def)

lemma card_arrangements_div:
  "card (arrangements M) = fact (size M) div repeat_factorials M"
  using card_arrangements [of M] repeat_factorials_pos [of M]
  by (metis nonzero_mult_div_cancel_right less_numeral_extra(3))

lemma permutation_count_arrangements:
  "permutation_count combo = card (arrangements (mset combo))"
  by (simp add: permutation_count_def card_arrangements_div repeat_factorials_def count_mset)

lemma arrangements_union:
  "(\<Union>M\<in>{M. size M = k \<and> set_mset M \<subseteq> A}. arrangements M) =
   {xs. set xs \<subseteq> A \<and> length xs = k}"
  by (auto simp: arrangements_def)

lemma sum_arrangements_combos:
  assumes "distinct elements"
  shows "(\<Sum>combo\<leftarrow>combos elements k. card (arrangements (mset combo))) = length elements ^ k"
proof -
  let ?S = "{M. size M = k \<and> set_mset M \<subseteq> set elements}"
  from mset_combos [OF assms, of k]
  have dist: "distinct (map mset (combos elements k))"
    and S: "set (map mset (combos elements k)) = ?S"
    by simp_all
  have fin: "finite ?S"
    unfolding S [symmetric] by (rule finite_set)
  have "(\<Sum>combo\<leftarrow>combos elements k. card (arrangements (mset combo))) =
        (\<Sum>M\<leftarrow>map mset (combos elements k). card (arrangements M))"
    by (simp add: comp_def)
  also have "\<dots> = (\<Sum>M\<in>set (map mset (combos elements k)). card (arrangements M))"
    using dist by (rule sum.distinct_set_conv_list [symmetric])
  also have "\<dots> = (\<Sum>M\<in>?S. card (arrangements M))"
    by (simp only: S)
  also have "\<dots> = card (\<Union>M\<in>?S. arrangements M)"
  proof (rule card_UN_disjoint [symmetric])
    show "finite ?S" by (rule fin)
    show "\<forall>M\<in>?S. finite (arrangements M)"
      by (simp add: finite_arrangements)
    show "\<forall>M\<in>?S. \<forall>N\<in>?S. M \<noteq> N \<longrightarrow> arrangements M \<inter> arrangements N = {}"
      by (auto simp: arrangements_def)
  qed
  also have "\<dots> = card {xs. set xs \<subseteq> set elements \<and> length xs = k}"
    by (simp only: arrangements_union)
  also have "\<dots> = card (set elements) ^ k"
    by (rule card_lists_length_eq) simp
  also have "card (set elements) = length elements"
    using assms by (rule distinct_card)
  finally show ?thesis .
qed

lemma combination_digits:
  assumes "combo \<in> set (combination nums 7)"
  shows "length combo = 7" and "\<forall>d\<in>set combo. d < 10"
proof -
  from assms have c: "combo \<in> set (combos nums 7)"
    by (simp only: combination_nums_eq_combos)
  from combos_member [OF c] show "length combo = 7" by simp
  from combos_member [OF c] have "set combo \<subseteq> set nums" by simp
  then show "\<forall>d\<in>set combo. d < 10"
    by (auto simp: nums_def)
qed

lemma permutation_count_le: "permutation_count combo \<le> fact (length combo)"
  by (simp add: permutation_count_def div_le_dividend)

lemma starting_numbers_of_combination:
  assumes "combo \<in> set (combination nums 7)"
  shows "starting_numbers_of combo = Inr (of_nat (permutation_count combo))"
    and "unat (of_nat (permutation_count combo) :: u32) = permutation_count combo"
proof -
  note c = combination_digits [OF assms]
  show "starting_numbers_of combo = Inr (of_nat (permutation_count combo))"
    using c by (intro starting_numbers_of_eq) simp_all
  have "permutation_count combo \<le> fact 7"
    using permutation_count_le [of combo] c(1) by simp
  then have "permutation_count combo < 2 ^ 32"
    by (simp add: fact_7)
  then show "unat (of_nat (permutation_count combo) :: u32) = permutation_count combo"
    by (rule unat_of_nat_u32)
qed

lemma sum_permutation_count:
  "(\<Sum>combo\<leftarrow>combination nums 7. card (arrangements (mset combo))) = 10000000"
proof -
  have "(\<Sum>combo\<leftarrow>combination nums 7. card (arrangements (mset combo))) = length nums ^ 7"
    unfolding combination_nums_eq_combos
    by (rule sum_arrangements_combos) (simp add: nums_def)
  also have "length nums = 10"
    by (simp add: nums_def)
  also have "(10 :: nat) ^ 7 = 10000000"
    by simp
  finally show ?thesis .
qed

text \<open>
  Claim C3: the numbers of starting numbers, \<open>7!\<close> divided by the product of the
  factorials of the repeat counts, of all the combinations that \<open>combination\<close> returns
  for the digits 0 to 9 and \<open>r = 7\<close> add up to 10,000,000, whatever their chains do. The
  first sum takes the numbers as \<open>DigitsMethod::solve\<close> computes them, the second as the
  formula gives them.
\<close>

theorem sum_of_starting_numbers:
  "(\<Sum>combo\<leftarrow>combination nums 7.
      case starting_numbers_of combo of Inl e \<Rightarrow> 0 | Inr n \<Rightarrow> unat n) = 10000000
   \<and> (\<Sum>combo\<leftarrow>combination nums 7.
      fact 7 div (\<Prod>d\<in>set combo. fact (count_list combo d))) = (10000000 :: nat)"
proof
  have "map (\<lambda>combo. case starting_numbers_of combo of Inl e \<Rightarrow> 0 | Inr n \<Rightarrow> unat n)
          (combination nums 7)
        = map (\<lambda>combo. card (arrangements (mset combo))) (combination nums 7)"
  proof (rule map_cong [OF refl])
    fix combo assume "combo \<in> set (combination nums 7)"
    from starting_numbers_of_combination [OF this]
    show "(case starting_numbers_of combo of Inl e \<Rightarrow> 0 | Inr n \<Rightarrow> unat n) =
          card (arrangements (mset combo))"
      by (simp add: permutation_count_arrangements)
  qed
  then show "(\<Sum>combo\<leftarrow>combination nums 7.
      case starting_numbers_of combo of Inl e \<Rightarrow> 0 | Inr n \<Rightarrow> unat n) = 10000000"
    by (simp only: sum_permutation_count)
  have "map (\<lambda>combo. fact 7 div (\<Prod>d\<in>set combo. fact (count_list combo d)))
          (combination nums 7)
        = map (\<lambda>combo. card (arrangements (mset combo))) (combination nums 7)"
  proof (rule map_cong [OF refl])
    fix combo :: "u32 list" assume "combo \<in> set (combination nums 7)"
    then have "length combo = 7" by (rule combination_digits(1))
    then have "fact 7 div (\<Prod>d\<in>set combo. fact (count_list combo d)) = permutation_count combo"
      by (simp only: permutation_count_def)
    then show "fact 7 div (\<Prod>d\<in>set combo. fact (count_list combo d)) =
          card (arrangements (mset combo))"
      by (simp only: permutation_count_arrangements)
  qed
  then show "(\<Sum>combo\<leftarrow>combination nums 7.
      fact 7 div (\<Prod>d\<in>set combo. fact (count_list combo d))) = (10000000 :: nat)"
    by (simp only: sum_permutation_count)
qed

section \<open>The reaches-1 table and the three strategies that terminate\<close>

lemma reaches_1_unique:
  "reaches_1 fuel n = Some b \<Longrightarrow> reaches_1 fuel' n = Some b' \<Longrightarrow> b = b'"
proof (induction fuel arbitrary: fuel' n)
  case 0
  then show ?case by simp
next
  case (Suc fuel)
  from Suc.prems(2) obtain fuel'' where f: "fuel' = Suc fuel''"
    by (cases fuel') simp_all
  show ?case
  proof (cases "n = 1 \<or> n = 89")
    case True
    with Suc.prems f show ?thesis by auto
  next
    case False
    with Suc.prems f show ?thesis
      using Suc.IH [of "digit_square_sum n" fuel''] by simp
  qed
qed

lemma reaches_1_to_1:
  assumes "reaches_1 fuel n = Some b"
  shows "b = to_1 n"
proof (cases b)
  case True
  with assms show ?thesis by (auto simp: to_1_def)
next
  case False
  have "\<not> to_1 n"
  proof
    assume "to_1 n"
    then obtain fuel' where "reaches_1 fuel' n = Some True"
      by (auto simp: to_1_def)
    with assms have "b = True" by (rule reaches_1_unique)
    with False show False by simp
  qed
  with False show ?thesis by simp
qed

lemma to_1_chain_total:
  assumes "1 \<le> n" and "n \<le> 567"
  shows "to_1_chain (of_nat n) = Some (Inr (to_1 n))"
proof -
  from reaches_1_total [OF assms] obtain fuel b where r: "reaches_1 fuel n = Some b"
    by blast
  from assms have "n < 10 ^ 9" by simp
  with r have "to_1_chain (of_nat n) = Some (Inr b)"
    by (rule to_1_chain_reaches)
  with reaches_1_to_1 [OF r] show ?thesis by simp
qed

lemma table_loop_spec:
  assumes "length tbl = 1024"
  shows "1 \<le> i \<Longrightarrow> i \<le> 568 \<Longrightarrow>
     \<exists>t. table_loop (of_nat i) tbl = Some (Inr t) \<and> length t = 1024
       \<and> (\<forall>v<1024. t ! v = (if i \<le> v \<and> v \<le> 567 then Some (to_1 v) else tbl ! v))"
  using assms
proof (induction "568 - i" arbitrary: i tbl)
  case 0
  then have i: "i = 568" by simp
  have "\<not> (568 :: u32) \<le> 567" by simp
  then have "table_loop (of_nat i) tbl = Some (Inr tbl)"
    unfolding i by (subst table_loop.simps) simp
  with "0.prems"(3) i show ?case by auto
next
  case (Suc k)
  then have i: "1 \<le> i" "i \<le> 567" by simp_all
  then have u: "unat (of_nat i :: u32) = i"
    by (intro unat_of_nat_u32) simp
  then have le: "(of_nat i :: u32) \<le> 567"
    using i by (simp add: word_le_nat_alt)
  let ?tbl = "tbl[i := Some (to_1 i)]"
  have "table_loop (of_nat i) tbl = table_loop (of_nat i + 1) ?tbl"
    using le u i Suc.prems(3) to_1_chain_total [OF i]
    by (subst table_loop.simps) simp
  also have "(of_nat i :: u32) + 1 = of_nat (Suc i)" by simp
  finally have step: "table_loop (of_nat i) tbl = table_loop (of_nat (Suc i)) ?tbl" .
  have "k = 568 - Suc i" using Suc.hyps(2) by simp
  moreover have "1 \<le> Suc i" "Suc i \<le> 568" "length ?tbl = 1024"
    using i Suc.prems(3) by simp_all
  ultimately obtain t where t: "table_loop (of_nat (Suc i)) ?tbl = Some (Inr t)"
      "length t = 1024"
      "\<forall>v<1024. t ! v = (if Suc i \<le> v \<and> v \<le> 567 then Some (to_1 v) else ?tbl ! v)"
    using Suc.hyps(1) [of "Suc i" ?tbl] by blast
  have "\<forall>v<1024. t ! v = (if i \<le> v \<and> v \<le> 567 then Some (to_1 v) else tbl ! v)"
  proof (intro allI impI)
    fix v :: nat assume v: "v < 1024"
    show "t ! v = (if i \<le> v \<and> v \<le> 567 then Some (to_1 v) else tbl ! v)"
    proof (cases "v = i")
      case True
      with t(3) v i Suc.prems(3) show ?thesis by simp
    next
      case False
      with t(3) v show ?thesis by (auto simp: nth_list_update)
    qed
  qed
  with step t(1,2) show ?case by simp
qed

lemma squigits_table_eq: "squigits_table = Some (Inr the_table)"
proof -
  from table_loop_spec [of "replicate 1024 None" 1]
  obtain t where t: "table_loop 1 (replicate 1024 None) = Some (Inr t)" "length t = 1024"
    "\<forall>v<1024. t ! v = (if 1 \<le> v \<and> v \<le> 567 then Some (to_1 v)
                          else replicate 1024 None ! v)"
    by auto
  have "t = the_table"
  proof (rule nth_equalityI)
    show "length t = length the_table"
      by (simp add: t(2) the_table_def)
    fix v assume "v < length t"
    with t(2) have v: "v < 1024" by simp
    with t(3) show "t ! v = the_table ! v"
      by (simp add: the_table_def del: upt_rec_numeral)
  qed
  with t(1) show ?thesis
    by (simp add: squigits_table_def)
qed

lemma the_table_nth:
  "v < 1024 \<Longrightarrow> the_table ! v = (if 1 \<le> v \<and> v \<le> 567 then Some (to_1 v) else None)"
  by (simp add: the_table_def del: upt_rec_numeral)

lemma length_the_table: "length the_table = 1024"
  by (simp add: the_table_def)

lemma array_read_the_table:
  assumes "1 \<le> s" and "s \<le> 567"
  shows "array_read the_table (of_nat s) = Inr (to_1 s)"
proof -
  from assms have "unat (of_nat s :: u32) = s"
    by (intro unat_of_nat_u32) simp
  with assms show ?thesis
    by (simp add: array_read_def length_the_table the_table_nth)
qed

lemma array_read_the_table_0: "array_read the_table 0 = Inl UninitializedRead"
  by (simp add: array_read_def length_the_table the_table_nth)

lemma count_89_empty: "j \<le> i \<Longrightarrow> count_89 i j = 0"
  by (simp add: count_89_def)

lemma count_89_step:
  assumes "i < j"
  shows "count_89 i j = (if to_1 (digit_square_sum i) then 0 else 1) + count_89 (Suc i) j"
proof -
  let ?P = "\<lambda>n. \<not> to_1 (digit_square_sum n)"
  have fin: "finite {n. Suc i \<le> n \<and> n < j \<and> ?P n}" by simp
  have notin: "i \<notin> {n. Suc i \<le> n \<and> n < j \<and> ?P n}" by simp
  show ?thesis
  proof (cases "?P i")
    case True
    with assms have "{n. i \<le> n \<and> n < j \<and> ?P n} = insert i {n. Suc i \<le> n \<and> n < j \<and> ?P n}"
      by (auto simp: Suc_le_eq le_less)
    with True fin notin show ?thesis
      by (simp add: count_89_def)
  next
    case False
    then have "{n. i \<le> n \<and> n < j \<and> ?P n} = {n. Suc i \<le> n \<and> n < j \<and> ?P n}"
      by (auto simp: Suc_le_eq le_less)
    with False show ?thesis
      by (simp add: count_89_def)
  qed
qed

lemma classify_below_ten_million:
  fixes i :: u32
  assumes "1 \<le> i" and "i < 10000000"
  shows "\<exists>s. squigit i = Inr s \<and> 1 \<le> s \<and> s \<le> 567
           \<and> array_read the_table s = Inr (to_1 (digit_square_sum (unat i)))
           \<and> BruteForce_chain i = Some (Inr (\<not> to_1 (digit_square_sum (unat i))))"
proof -
  let ?s = "digit_square_sum (unat i)"
  from assms(1) have nz: "i \<noteq> 0" by auto
  note sq = squigit_below_ten_million [OF assms(2)]
  note s = sq(4) [OF nz] sq(2)
  from reaches_1_total [OF s] obtain fuel b where r: "reaches_1 fuel ?s = Some b" by blast
  from s have "?s < 10 ^ 9" by simp
  with r sq(1) have "BruteForce_chain i = Some (Inr (\<not> b))"
    by (intro BruteForce_chain_reaches [where n = ?s])
  then have bf: "BruteForce_chain i = Some (Inr (\<not> to_1 ?s))"
    using reaches_1_to_1 [OF r] by simp
  have "unat (1 :: u32) \<le> unat (of_nat ?s :: u32)" "unat (of_nat ?s :: u32) \<le> unat (567 :: u32)"
    using s sq(3) by simp_all
  then have "(1 :: u32) \<le> of_nat ?s" "(of_nat ?s :: u32) \<le> 567"
    by (simp_all only: word_le_nat_alt)
  with sq(1) array_read_the_table [OF s] bf show ?thesis by blast
qed

lemma Squigits_loop_eq:
  fixes bound i ans :: u32
  assumes "bound \<le> 10000000"
  shows "1 \<le> i \<Longrightarrow> i \<le> bound \<Longrightarrow>
         Squigits_loop the_table bound i ans = Inr (ans + of_nat (count_89 (unat i) (unat bound)))"
proof (induction "unat bound - unat i" arbitrary: i ans)
  case 0
  then have "unat i = unat bound"
    by (simp add: word_le_nat_alt)
  then have "\<not> i < bound" "count_89 (unat i) (unat bound) = 0"
    by (simp_all add: word_less_nat_alt count_89_empty)
  then show ?case
    by (subst Squigits_loop.simps) simp
next
  case (Suc k)
  then have lt: "i < bound"
    by (simp add: word_less_nat_alt)
  with assms have "i < 10000000" by simp
  from classify_below_ten_million [OF Suc.prems(1) this]
  obtain s where s: "squigit i = Inr s"
      "array_read the_table s = Inr (to_1 (digit_square_sum (unat i)))"
    by blast
  note inc = unat_inc_below [OF lt]
  let ?ans = "if \<not> to_1 (digit_square_sum (unat i)) then ans + 1 else ans"
  have "1 \<le> i + 1" "i + 1 \<le> bound"
    using inc Suc.prems(1) by (simp_all add: word_le_nat_alt)
  moreover have "k = unat bound - unat (i + 1)"
    using Suc.hyps(2) inc by simp
  ultimately have "Squigits_loop the_table bound (i + 1) ?ans =
        Inr (?ans + of_nat (count_89 (unat (i + 1)) (unat bound)))"
    by (intro Suc.hyps(1))
  moreover have "Squigits_loop the_table bound i ans = Squigits_loop the_table bound (i + 1) ?ans"
    using lt s by (subst Squigits_loop.simps) simp
  ultimately show ?case
    using count_89_step [OF inc(2)] inc(1) by simp
qed

lemma BruteForce_loop_eq:
  fixes bound i ans :: u32
  assumes "bound \<le> 10000000"
  shows "1 \<le> i \<Longrightarrow> i \<le> bound \<Longrightarrow>
         BruteForce_loop bound i ans =
           Some (Inr (ans + of_nat (count_89 (unat i) (unat bound))))"
proof (induction "unat bound - unat i" arbitrary: i ans)
  case 0
  then have "unat i = unat bound"
    by (simp add: word_le_nat_alt)
  then have "\<not> i < bound" "count_89 (unat i) (unat bound) = 0"
    by (simp_all add: word_less_nat_alt count_89_empty)
  then show ?case
    by (subst BruteForce_loop.simps) simp
next
  case (Suc k)
  then have lt: "i < bound"
    by (simp add: word_less_nat_alt)
  with assms have "i < 10000000" by simp
  from classify_below_ten_million [OF Suc.prems(1) this]
  have bf: "BruteForce_chain i = Some (Inr (\<not> to_1 (digit_square_sum (unat i))))"
    by blast
  note inc = unat_inc_below [OF lt]
  let ?ans = "if \<not> to_1 (digit_square_sum (unat i)) then ans + 1 else ans"
  have "1 \<le> i + 1" "i + 1 \<le> bound"
    using inc Suc.prems(1) by (simp_all add: word_le_nat_alt)
  moreover have "k = unat bound - unat (i + 1)"
    using Suc.hyps(2) inc by simp
  ultimately have "BruteForce_loop bound (i + 1) ?ans =
        Some (Inr (?ans + of_nat (count_89 (unat (i + 1)) (unat bound))))"
    by (intro Suc.hyps(1))
  moreover have "BruteForce_loop bound i ans = BruteForce_loop bound (i + 1) ?ans"
    using lt bf by (subst BruteForce_loop.simps) simp
  ultimately show ?case
    using count_89_step [OF inc(2)] inc(1) by simp
qed

lemma BruteForce_solve_eq:
  "BruteForce_solve = Some (Inr (of_nat (count_89 1 10000000)))"
  using BruteForce_loop_eq [of TEN_MILLION 1 0]
  by (simp add: BruteForce_solve_def TEN_MILLION_def)

lemma Squigits_solve_eq:
  "Squigits_solve = Some (Inr (of_nat (count_89 1 10000000)))"
  using Squigits_loop_eq [of TEN_MILLION 1 0]
  by (simp add: Squigits_solve_def squigits_table_eq TEN_MILLION_def)

lemma digit_square_sum_digit: "n < 10 \<Longrightarrow> digit_square_sum n = n * n"
  by (subst digit_square_sum.simps) (simp add: digit_square_sum_0)

lemma squigit_digit:
  fixes d :: u32
  assumes "d < 10"
  shows "squigit d = Inr (of_nat (unat d * unat d))"
proof -
  from assms have d: "unat d < 10" by (simp add: word_less_nat_alt)
  then have "unat d < 10 ^ 9" by simp
  then have "squigit d = Inr (of_nat (digit_square_sum (unat d)))"
    by (rule squigit_correct)
  with d show ?thesis by (simp only: digit_square_sum_digit)
qed

lemma combo_squigit_eq:
  "\<forall>d\<in>set combo. d < 10 \<Longrightarrow>
   combo_squigit combo squigit_val = Inr (squigit_val + of_nat (digit_squares combo))"
proof (induction combo arbitrary: squigit_val)
  case Nil
  show ?case by (simp add: digit_squares_def)
next
  case (Cons d combo)
  then have "squigit d = Inr (of_nat (unat d * unat d))"
    by (intro squigit_digit) simp
  moreover have "combo_squigit combo (squigit_val + of_nat (unat d * unat d)) =
      Inr (squigit_val + of_nat (unat d * unat d) + of_nat (digit_squares combo))"
    using Cons.prems by (intro Cons.IH) simp
  ultimately show ?case
    by (simp add: digit_squares_def add.assoc)
qed

lemma digit_squares_le:
  "\<forall>d\<in>set combo. d < 10 \<Longrightarrow> digit_squares combo \<le> 81 * length combo"
proof (induction combo)
  case Nil
  show ?case by (simp add: digit_squares_def)
next
  case (Cons d combo)
  from Cons.prems have "d < 10" by simp
  then have "unat d < 10" by (simp add: word_less_nat_alt)
  then have le: "unat d \<le> 9" by linarith
  have "unat d * unat d \<le> 9 * 9"
    using le by (intro mult_mono) simp_all
  moreover have "digit_squares combo \<le> 81 * length combo"
    using Cons by simp
  ultimately show ?case
    by (simp add: digit_squares_def)
qed

lemma combo_squigit_combination:
  assumes "combo \<in> set (combination nums 7)"
  shows "combo_squigit combo 0 = Inr (of_nat (digit_squares combo))"
    and "digit_squares combo \<le> 567"
    and "unat (of_nat (digit_squares combo) :: u32) = digit_squares combo"
proof -
  note c = combination_digits [OF assms]
  from combo_squigit_eq [OF c(2), of 0]
  show "combo_squigit combo 0 = Inr (of_nat (digit_squares combo))" by simp
  from digit_squares_le [OF c(2)] c(1)
  show le: "digit_squares combo \<le> 567" by simp
  then show "unat (of_nat (digit_squares combo) :: u32) = digit_squares combo"
    by (intro unat_of_nat_u32) simp
qed

lemma Digits_loop_eq:
  "set combinations \<subseteq> set (combination nums 7) \<Longrightarrow>
   Digits_loop the_table combinations ans =
     Inr (ans + of_nat (\<Sum>combo\<leftarrow>combinations. counted combo))"
proof (induction combinations arbitrary: ans)
  case Nil
  show ?case by simp
next
  case (Cons combo combinations)
  then have mem: "combo \<in> set (combination nums 7)"
    and rest: "set combinations \<subseteq> set (combination nums 7)" by simp_all
  note sq = combo_squigit_combination [OF mem]
  note sn = starting_numbers_of_combination(1) [OF mem]
  note IH = Cons.IH [OF rest]
  let ?s = "digit_squares combo"
  show ?case
  proof (cases "?s = 0")
    case True
    then show ?thesis
      by (simp add: sq(1) IH counted_def)
  next
    case False
    then have nz: "(of_nat ?s :: u32) \<noteq> 0"
      using sq(3) by (metis unat_0)
    from False sq(2) have rd: "array_read the_table (of_nat ?s) = Inr (to_1 ?s)"
      by (intro array_read_the_table) simp_all
    show ?thesis
      using False nz by (simp add: sq(1) rd sn IH counted_def add.assoc)
  qed
qed

lemma Digits_solve_eq:
  "Digits_solve = Some (Inr (of_nat (\<Sum>combo\<leftarrow>combination nums 7. counted combo)))"
  using Digits_loop_eq [of "combination nums 7" 0]
  by (simp add: Digits_solve_def squigits_table_eq)

lemma zeros_in_combination: "[0, 0, 0, 0, 0, 0, 0] \<in> set (combination nums 7)"
proof -
  have "size (mset [0, 0, 0, 0, 0, 0, 0 :: u32]) = 7
        \<and> set_mset (mset [0, 0, 0, 0, 0, 0, 0 :: u32]) \<subseteq> set nums"
    by (simp add: nums_def)
  then have "mset [0, 0, 0, 0, 0, 0, 0 :: u32] \<in> mset ` set (combos nums 7)"
    using mset_combos [of nums 7] by (simp add: nums_def)
  then obtain combo where c: "combo \<in> set (combos nums 7)"
      "mset combo = mset [0, 0, 0, 0, 0, 0, 0 :: u32]"
    by auto
  from c(2) have "set combo = set [0, 0, 0, 0, 0, 0, 0 :: u32]"
    by (metis set_mset_mset)
  then have "set combo = {0}" by simp
  moreover from combos_member [OF c(1)] have "length combo = 7" by simp
  ultimately have "combo = replicate 7 0"
    by (intro replicate_eqI) simp_all
  then have "combo = [0, 0, 0, 0, 0, 0, 0]"
    by (simp add: numeral_eq_Suc)
  with c(1) show ?thesis
    by (simp only: combination_nums_eq_combos)
qed

text \<open>
  Claim C10: the loop over \<open>i = 1 .. 567\<close> initialises exactly the slots 1 to 567 of the
  1024 slots of the reaches-1 table, and slot 0 stays without a value. In the main pass of
  \<open>SquigitsMethod\<close> every starting number from 1 to 9,999,999 has a squigit from 1 to 567,
  so the read is of an initialised slot. In \<open>DigitsMethod\<close> the squigit of a combination
  is at most 567 and the table is read only when it is not 0 (it is 0 for the combination
  of seven zeros). Both \<open>solve\<close> operations return a count: no read of the model is an
  \<open>UninitializedRead\<close> or \<open>OutOfBounds\<close> error.
\<close>

theorem table_reads_initialised:
  "\<exists>t. squigits_table = Some (Inr t) \<and> length t = 1024
     \<and> (\<forall>v<1024. (t ! v \<noteq> None) = (1 \<le> v \<and> v \<le> 567))
     \<and> array_read t 0 = Inl UninitializedRead
     \<and> (\<forall>i :: u32. 1 \<le> i \<and> i < 10000000 \<longrightarrow>
          (\<exists>s b. squigit i = Inr s \<and> 1 \<le> s \<and> s \<le> 567 \<and> array_read t s = Inr b))
     \<and> (\<forall>combo\<in>set (combination nums 7).
          \<exists>squigit_val. combo_squigit combo 0 = Inr squigit_val \<and> squigit_val \<le> 567
            \<and> (squigit_val \<noteq> 0 \<longrightarrow> (\<exists>b. array_read t squigit_val = Inr b)))
     \<and> [0, 0, 0, 0, 0, 0, 0] \<in> set (combination nums 7)
     \<and> combo_squigit [0, 0, 0, 0, 0, 0, 0] 0 = Inr 0
     \<and> (\<exists>n. Squigits_solve = Some (Inr n))
     \<and> (\<exists>n. Digits_solve = Some (Inr n))"
proof -
  have 1: "\<forall>v<1024. (the_table ! v \<noteq> None) = (1 \<le> v \<and> v \<le> 567)"
    by (simp add: the_table_nth)
  have 2: "\<forall>i :: u32. 1 \<le> i \<and> i < 10000000 \<longrightarrow>
          (\<exists>s b. squigit i = Inr s \<and> 1 \<le> s \<and> s \<le> 567 \<and> array_read the_table s = Inr b)"
    using classify_below_ten_million by blast
  have 3: "\<forall>combo\<in>set (combination nums 7).
          \<exists>squigit_val. combo_squigit combo 0 = Inr squigit_val \<and> squigit_val \<le> 567
            \<and> (squigit_val \<noteq> 0 \<longrightarrow> (\<exists>b. array_read the_table squigit_val = Inr b))"
  proof
    fix combo assume mem: "combo \<in> set (combination nums 7)"
    note sq = combo_squigit_combination [OF mem]
    let ?s = "digit_squares combo"
    have "unat (of_nat ?s :: u32) \<le> unat (567 :: u32)"
      using sq(2,3) by simp
    then have le: "(of_nat ?s :: u32) \<le> 567"
      by (simp only: word_le_nat_alt)
    have "\<exists>b. array_read the_table (of_nat ?s) = Inr b" if "(of_nat ?s :: u32) \<noteq> 0"
    proof -
      from that have "?s \<noteq> 0" by (cases "?s = 0") simp_all
      with sq(2) have "array_read the_table (of_nat ?s) = Inr (to_1 ?s)"
        by (intro array_read_the_table) simp_all
      then show ?thesis by blast
    qed
    with sq(1) le show "\<exists>squigit_val. combo_squigit combo 0 = Inr squigit_val
        \<and> squigit_val \<le> 567
        \<and> (squigit_val \<noteq> 0 \<longrightarrow> (\<exists>b. array_read the_table squigit_val = Inr b))"
      by blast
  qed
  have 4: "combo_squigit [0, 0, 0, 0, 0, 0, 0] 0 = Inr 0"
    using combo_squigit_combination(1) [OF zeros_in_combination]
    by (simp add: digit_squares_def)
  show ?thesis
    using squigits_table_eq length_the_table 1 array_read_the_table_0 2 3
      zeros_in_combination 4 Squigits_solve_eq Digits_solve_eq
    by blast
qed

theorem table_reads_initialised_witness:
  "\<exists>t. squigits_table = Some (Inr t)
     \<and> (t ! 567 \<noteq> None) \<and> (t ! 0 = None) \<and> (t ! 568 = None)
     \<and> (\<exists>s b. squigit 9999999 = Inr s \<and> 1 \<le> s \<and> s \<le> 567 \<and> array_read t s = Inr b)
     \<and> (\<exists>squigit_val. combo_squigit [0, 0, 0, 0, 0, 0, 0] 0 = Inr squigit_val
           \<and> squigit_val = 0)"
proof -
  from table_reads_initialised obtain t where t: "squigits_table = Some (Inr t)"
    "\<forall>v<1024. (t ! v \<noteq> None) = (1 \<le> v \<and> v \<le> 567)"
    "\<forall>i :: u32. 1 \<le> i \<and> i < 10000000 \<longrightarrow>
          (\<exists>s b. squigit i = Inr s \<and> 1 \<le> s \<and> s \<le> 567 \<and> array_read t s = Inr b)"
    "combo_squigit [0, 0, 0, 0, 0, 0, 0] 0 = Inr 0"
    by blast
  have "t ! 567 \<noteq> None" "t ! 0 = None" "t ! 568 = None"
    using t(2) [THEN spec, of 567] t(2) [THEN spec, of 0] t(2) [THEN spec, of 568]
    by simp_all
  moreover from t(3) have "\<exists>s b. squigit 9999999 = Inr s \<and> 1 \<le> s \<and> s \<le> 567
      \<and> array_read t s = Inr b"
    by simp
  ultimately show ?thesis
    using t(1,4) by blast
qed

section \<open>BruteForceMethodCached: the caches have one element\<close>

text \<open>
  Claim C4 says that the two caches cover the indices 0 to 567, so that every read and
  write stays within the container's size. The vectors are constructed with one element
  and \<open>reserve\<close> does not change that, so the very first read, \<open>numbers_that_goto_89[1]\<close>
  for the starting number 1 (whose squigit is 1), is already outside the size.
\<close>

theorem cached_first_read_out_of_bounds:
  "length initial_cache = 1 \<and> squigit 1 = Inr 1
   \<and> vector_read initial_cache 1 = Inl OutOfBounds
   \<and> Cached_chain initial_cache initial_cache 1 [] = Some (Inl OutOfBounds)"
  by code_simp

section \<open>The four strategies\<close>

lemma number_of_digits_of: "n < 10 ^ k \<Longrightarrow> number_of (digits_of k n) = n"
proof (induction k arbitrary: n)
  case 0
  then show ?case by simp
next
  case (Suc k)
  then have "n div 10 < 10 ^ k"
    by (simp add: less_mult_imp_div_less mult.commute)
  then have "number_of (digits_of k (n div 10)) = n div 10"
    by (rule Suc.IH)
  then show ?case by simp
qed

lemma length_digits_of: "length (digits_of k n) = k"
  by (induction k arbitrary: n) simp_all

lemma set_digits_of: "d \<in> set (digits_of k n) \<Longrightarrow> d < 10"
  by (induction k arbitrary: n) auto

lemma digits_of_number_of:
  "\<forall>d\<in>set ds. d < 10 \<Longrightarrow>
   number_of ds < 10 ^ length ds \<and> digits_of (length ds) (number_of ds) = ds"
proof (induction ds)
  case Nil
  show ?case by simp
next
  case (Cons d ds)
  then have d: "d < 10" and IH: "number_of ds < 10 ^ length ds"
      "digits_of (length ds) (number_of ds) = ds"
    by simp_all
  from IH(1) have "10 * number_of ds + 10 \<le> 10 * 10 ^ length ds"
    by simp
  with d have "d + 10 * number_of ds < 10 * 10 ^ length ds"
    by linarith
  moreover from d have "(d + 10 * number_of ds) mod 10 = d"
      "(d + 10 * number_of ds) div 10 = number_of ds"
    by simp_all
  ultimately show ?case
    using IH(2) by simp
qed

lemma sum_squares_digits_of:
  "n < 10 ^ k \<Longrightarrow> (\<Sum>d\<leftarrow>digits_of k n. d * d) = digit_square_sum n"
proof (induction k arbitrary: n)
  case 0
  then show ?case by (simp add: digit_square_sum_0)
next
  case (Suc k)
  then have "n div 10 < 10 ^ k"
    by (simp add: less_mult_imp_div_less mult.commute)
  then have IH: "(\<Sum>d\<leftarrow>digits_of k (n div 10). d * d) = digit_square_sum (n div 10)"
    by (rule Suc.IH)
  show ?case
  proof (cases "n = 0")
    case True
    with IH show ?thesis by (simp add: digit_square_sum_0)
  next
    case False
    with IH show ?thesis
      by (subst digit_square_sum.simps) simp
  qed
qed

lemma unat_digit: "d < 10 \<Longrightarrow> unat (of_nat d :: u32) = d"
  by (intro unat_of_nat_u32) simp

lemma map_unat_digit_list: "map unat (digit_list n) = digits_of 7 n"
proof -
  have "map unat (digit_list n) = map (\<lambda>d. unat (of_nat d :: u32)) (digits_of 7 n)"
    by (simp add: digit_list_def comp_def)
  also have "\<dots> = map (\<lambda>d. d) (digits_of 7 n)"
    by (rule map_cong [OF refl]) (simp add: set_digits_of unat_digit)
  finally show ?thesis by simp
qed

lemma digit_squares_map_unat: "digit_squares xs = (\<Sum>d\<leftarrow>map unat xs. d * d)"
  by (simp add: digit_squares_def comp_def)

lemma set_nums: "set nums = {d. d < 10}"
proof -
  have "{0..<10 :: nat} = {0, 1, 2, 3, 4, 5, 6, 7, 8, 9}" by auto
  then have "(of_nat :: nat \<Rightarrow> u32) ` {0..<10} = set nums"
    by (simp add: nums_def)
  then show ?thesis by (simp only: digits_image)
qed

lemma digit_list_props:
  assumes "n < 10 ^ 7"
  shows "length (digit_list n) = 7" and "set (digit_list n) \<subseteq> set nums"
    and "digit_squares (digit_list n) = digit_square_sum n"
proof -
  show "length (digit_list n) = 7"
    by (simp add: digit_list_def length_digits_of)
  show "set (digit_list n) \<subseteq> set nums"
  proof
    fix x assume "x \<in> set (digit_list n)"
    then obtain d where d: "d \<in> set (digits_of 7 n)" "x = of_nat d"
      by (auto simp: digit_list_def)
    from set_digits_of [OF d(1)] have "d \<in> {0..<10}" by simp
    with d(2) have "x \<in> of_nat ` {0..<10}" by blast
    then show "x \<in> set nums" by (simp only: digits_image set_nums)
  qed
  show "digit_squares (digit_list n) = digit_square_sum n"
    using assms by (simp only: digit_squares_map_unat map_unat_digit_list sum_squares_digits_of)
qed

lemma digit_list_inj: "inj_on digit_list {n. n < 10 ^ 7}"
proof (rule inj_onI)
  fix n m :: nat
  assume n: "n \<in> {n. n < 10 ^ 7}" and m: "m \<in> {n. n < 10 ^ 7}"
    and eq: "digit_list n = digit_list m"
  from eq have "map unat (digit_list n) = map unat (digit_list m)" by simp
  then have "number_of (digits_of 7 n) = number_of (digits_of 7 m)"
    by (simp only: map_unat_digit_list)
  with n m show "n = m"
    by (simp add: number_of_digits_of)
qed

lemma digit_list_surj:
  fixes xs :: "u32 list"
  assumes "length xs = 7" and "set xs \<subseteq> set nums"
  shows "\<exists>n. n < 10 ^ 7 \<and> digit_list n = xs"
proof -
  let ?ds = "map unat xs"
  have small: "\<forall>d\<in>set ?ds. d < 10"
    using assms(2) by (auto simp: set_nums word_less_nat_alt)
  from digits_of_number_of [OF small] assms(1)
  have n: "number_of ?ds < 10 ^ 7" and same: "digits_of 7 (number_of ?ds) = ?ds"
    by simp_all
  have "digit_list (number_of ?ds) = map of_nat ?ds"
    by (simp only: digit_list_def same)
  also have "\<dots> = xs"
    by (simp add: comp_def)
  finally show ?thesis using n by blast
qed

lemma card_digit_lists:
  "card {xs. set xs \<subseteq> set nums \<and> length xs = 7 \<and> Q (digit_squares xs)} =
   card {n. n < 10 ^ 7 \<and> Q (digit_square_sum n)}"
proof -
  let ?A = "{n. n < 10 ^ 7 \<and> Q (digit_square_sum n)}"
  let ?B = "{xs. set xs \<subseteq> set nums \<and> length xs = 7 \<and> Q (digit_squares xs)}"
  have img: "digit_list ` ?A = ?B"
  proof (rule set_eqI, rule iffI)
    fix xs assume "xs \<in> digit_list ` ?A"
    then obtain n where "n < 10 ^ 7" "Q (digit_square_sum n)" "xs = digit_list n"
      by blast
    then show "xs \<in> ?B"
      using digit_list_props [of n] by simp
  next
    fix xs assume "xs \<in> ?B"
    then have xs: "set xs \<subseteq> set nums" "length xs = 7" "Q (digit_squares xs)"
      by simp_all
    from digit_list_surj [OF xs(2,1)] obtain n where n: "n < 10 ^ 7" "digit_list n = xs"
      by blast
    with xs(3) digit_list_props(3) [OF n(1)] have "Q (digit_square_sum n)" by simp
    with n show "xs \<in> digit_list ` ?A" by blast
  qed
  have "inj_on digit_list ?A"
    by (rule inj_on_subset [OF digit_list_inj]) blast
  then have "card (digit_list ` ?A) = card ?A"
    by (rule card_image)
  then show ?thesis
    by (simp only: img)
qed

lemma sum_filtered_arrangements_combos:
  assumes "distinct elements"
  shows "(\<Sum>combo\<leftarrow>combos elements k. card {xs \<in> arrangements (mset combo). Q xs}) =
         card {xs. set xs \<subseteq> set elements \<and> length xs = k \<and> Q xs}"
proof -
  let ?S = "{M. size M = k \<and> set_mset M \<subseteq> set elements}"
  let ?g = "\<lambda>M. {xs \<in> arrangements M. Q xs}"
  from mset_combos [OF assms, of k]
  have dist: "distinct (map mset (combos elements k))"
    and S: "set (map mset (combos elements k)) = ?S"
    by simp_all
  have fin: "finite ?S"
    unfolding S [symmetric] by (rule finite_set)
  have "(\<Sum>combo\<leftarrow>combos elements k. card (?g (mset combo))) =
        (\<Sum>M\<leftarrow>map mset (combos elements k). card (?g M))"
    by (simp add: comp_def)
  also have "\<dots> = (\<Sum>M\<in>set (map mset (combos elements k)). card (?g M))"
    using dist by (rule sum.distinct_set_conv_list [symmetric])
  also have "\<dots> = (\<Sum>M\<in>?S. card (?g M))"
    by (simp only: S)
  also have "\<dots> = card (\<Union>M\<in>?S. ?g M)"
  proof (rule card_UN_disjoint [symmetric])
    show "finite ?S" by (rule fin)
    show "\<forall>M\<in>?S. finite (?g M)"
      by (simp add: finite_arrangements)
    show "\<forall>M\<in>?S. \<forall>N\<in>?S. M \<noteq> N \<longrightarrow> ?g M \<inter> ?g N = {}"
      by (auto simp: arrangements_def)
  qed
  also have "(\<Union>M\<in>?S. ?g M) = {xs. set xs \<subseteq> set elements \<and> length xs = k \<and> Q xs}"
    by (auto simp: arrangements_def)
  finally show ?thesis .
qed

lemma digit_squares_mset:
  assumes "mset xs = mset ys"
  shows "digit_squares xs = digit_squares ys"
proof -
  have "digit_squares zs = sum_mset (image_mset (\<lambda>d. unat d * unat d) (mset zs))" for zs
    by (simp add: digit_squares_def flip: sum_mset_sum_list)
  with assms show ?thesis by simp
qed

lemma counted_card:
  "counted combo =
   card {xs \<in> arrangements (mset combo).
          digit_squares xs \<noteq> 0 \<and> \<not> to_1 (digit_squares xs)}"
proof -
  let ?P = "\<lambda>s. s \<noteq> 0 \<and> \<not> to_1 s"
  have same: "digit_squares xs = digit_squares combo" if "xs \<in> arrangements (mset combo)" for xs
    using that by (intro digit_squares_mset) (simp add: arrangements_def)
  show ?thesis
  proof (cases "?P (digit_squares combo)")
    case True
    with same have "{xs \<in> arrangements (mset combo). ?P (digit_squares xs)} =
        arrangements (mset combo)"
      by auto
    moreover from True have "counted combo = permutation_count combo"
      unfolding counted_def by (rule if_P)
    ultimately show ?thesis
      by (simp only: permutation_count_arrangements)
  next
    case False
    with same have "{xs \<in> arrangements (mset combo). ?P (digit_squares xs)} = {}"
      by auto
    moreover from False have "counted combo = 0"
      unfolding counted_def by (rule if_not_P)
    ultimately show ?thesis
      by (simp only: card.empty)
  qed
qed

lemma sum_counted: "(\<Sum>combo\<leftarrow>combination nums 7. counted combo) = count_89 1 10000000"
proof -
  let ?P = "\<lambda>s. s \<noteq> 0 \<and> \<not> to_1 s"
  have "(\<Sum>combo\<leftarrow>combination nums 7. counted combo) =
        (\<Sum>combo\<leftarrow>combos nums 7.
           card {xs \<in> arrangements (mset combo). ?P (digit_squares xs)})"
    by (simp only: combination_nums_eq_combos counted_card)
  also have "\<dots> = card {xs. set xs \<subseteq> set nums \<and> length xs = 7 \<and> ?P (digit_squares xs)}"
    by (rule sum_filtered_arrangements_combos) (simp add: nums_def)
  also have "\<dots> = card {n. n < 10 ^ 7 \<and> ?P (digit_square_sum n)}"
    by (rule card_digit_lists)
  also have "{n. n < 10 ^ 7 \<and> ?P (digit_square_sum n)} =
             {n. 1 \<le> n \<and> n < 10000000 \<and> \<not> to_1 (digit_square_sum n)}"
  proof (rule Collect_cong)
    fix n :: nat
    have "digit_square_sum n \<noteq> 0 \<longleftrightarrow> 1 \<le> n"
      using digit_square_sum_pos [of n] digit_square_sum_0 by (cases "n = 0") auto
    then show "(n < 10 ^ 7 \<and> ?P (digit_square_sum n)) =
          (1 \<le> n \<and> n < 10000000 \<and> \<not> to_1 (digit_square_sum n))"
      by auto
  qed
  finally show ?thesis
    by (simp only: count_89_def)
qed

lemma count_89_small: "count_89 1 10000000 < 2 ^ 32"
proof -
  have "{n. 1 \<le> n \<and> n < 10000000 \<and> \<not> to_1 (digit_square_sum n)} \<subseteq> {0..<10000000}"
    by auto
  then have "count_89 1 10000000 \<le> card {0..<10000000 :: nat}"
    unfolding count_89_def by (intro card_mono) simp_all
  then show ?thesis by simp
qed

text \<open>
  Claim C1 says that the four \<open>solve\<close> operations return the same count for the bound of
  ten million. \<open>BruteForceMethodCached::solve\<close> reads outside its one-element vector in
  its first round, so it has no defined result. The other three do return the same count:
  the number of \<open>i\<close> from 1 to 9,999,999 whose digit sum does not lead to 1.
\<close>

theorem strategies_agree_but_cached:
  "Cached_solve = Some (Inl OutOfBounds)
   \<and> (\<exists>n. BruteForce_solve = Some (Inr n) \<and> Squigits_solve = Some (Inr n)
         \<and> Digits_solve = Some (Inr n)
         \<and> unat n = card {i. 1 \<le> i \<and> i < 10000000 \<and> \<not> to_1 (digit_square_sum i)})"
proof
  show "Cached_solve = Some (Inl OutOfBounds)"
    by code_simp
  have "unat (of_nat (count_89 1 10000000) :: u32) = count_89 1 10000000"
    using count_89_small by (rule unat_of_nat_u32)
  then have "unat (of_nat (count_89 1 10000000) :: u32) =
      card {i. 1 \<le> i \<and> i < 10000000 \<and> \<not> to_1 (digit_square_sum i)}"
    by (simp only: count_89_def)
  moreover have "Digits_solve = Some (Inr (of_nat (count_89 1 10000000)))"
    by (simp only: Digits_solve_eq sum_counted)
  ultimately show "\<exists>n. BruteForce_solve = Some (Inr n) \<and> Squigits_solve = Some (Inr n)
         \<and> Digits_solve = Some (Inr n)
         \<and> unat n = card {i. 1 \<le> i \<and> i < 10000000 \<and> \<not> to_1 (digit_square_sum i)}"
    using BruteForce_solve_eq Squigits_solve_eq by blast
qed

end
